theory Spec2Isabelle
  imports Main
begin

section \<open>The inode layer of the file system (fs.c)\<close>

text \<open>
  A shallow embedding of the routines of \<^verbatim>\<open>fs.c\<close>: paths and directory records, the
  in-memory inode with its reader/writer flags, the block allocator, inode contents
  (\<^verbatim>\<open>bmap\<close>, \<^verbatim>\<open>readi\<close>, \<^verbatim>\<open>writei\<close>, \<^verbatim>\<open>itrunc\<close>), and the reference
  counting of \<^verbatim>\<open>iput\<close>.

  Conventions. A C \<^verbatim>\<open>uint\<close> is a \<open>nat\<close> below \<open>2 ^ 32\<close>, and every operation of the
  source that can wrap has its \<open>mod 2 ^ 32\<close> written out. A byte (\<^verbatim>\<open>char\<close>,
  \<^verbatim>\<open>uchar\<close>) is a \<open>char\<close>. A \<^verbatim>\<open>panic\<close> is the value \<open>Inl (Panicked msg)\<close>.
\<close>

subsection \<open>Constants of the headers\<close>

text \<open>
  The headers \<^verbatim>\<open>fs.h\<close>, \<^verbatim>\<open>stat.h\<close>, \<^verbatim>\<open>file.h\<close> and \<^verbatim>\<open>param.h\<close> are not part of
  the sources at hand. Their constants take the values the specification names
  (\<open>BSIZE = 512\<close>, \<open>NDIRECT = 12\<close>, \<open>NINDIRECT = BSIZE / 4\<close>,
  \<open>MAXFILE = NDIRECT + NINDIRECT\<close>, \<open>DIRSIZ = 14\<close>, a directory record of
  \<open>2 + DIRSIZ\<close> bytes, \<open>BPB\<close> the bits of a block); \<open>NDEV\<close> and the inode types
  have the values of xv6, and no property below depends on which they are.
\<close>

definition BSIZE :: nat where "BSIZE = 512"
definition NDIRECT :: nat where "NDIRECT = 12"
definition NINDIRECT :: nat where "NINDIRECT = 128"
definition MAXFILE :: nat where "MAXFILE = 140"
definition DIRSIZ :: nat where "DIRSIZ = 14"
definition BPB :: nat where "BPB = 4096"
definition NDEV :: int where "NDEV = 10"
definition T_DIR :: int where "T_DIR = 1"
definition T_FILE :: int where "T_FILE = 2"
definition T_DEV :: int where "T_DEV = 3"

type_synonym byte = char

definition NUL :: byte where "NUL = CHR 0x00"
definition SLASH :: byte where "SLASH = CHR ''/''"

subsection \<open>Paths: skipelem\<close>

text \<open>
  A \<^verbatim>\<open>char *\<close> into a NUL-terminated string is the list of the bytes from the pointer
  on; the string ends at the first \<open>NUL\<close> or, at the latest, where the list ends.
  \<open>at_nul p\<close> is the test \<^verbatim>\<open>*path == 0\<close>.
\<close>

fun at_nul :: "byte list \<Rightarrow> bool" where
  "at_nul [] = True"
| "at_nul (c # cs) = (c = NUL)"

text \<open>\<^verbatim>\<open>while(*path == '/') path++;\<close>\<close>

fun skip_slashes :: "byte list \<Rightarrow> byte list" where
  "skip_slashes [] = []"
| "skip_slashes (c # cs) = (if c = SLASH then skip_slashes cs else c # cs)"

text \<open>\<^verbatim>\<open>while(*path != '/' && *path != 0) path++;\<close> The result is the new pointer.\<close>

fun skip_name :: "byte list \<Rightarrow> byte list" where
  "skip_name [] = []"
| "skip_name (c # cs) = (if c \<noteq> SLASH \<and> c \<noteq> NUL then skip_name cs else c # cs)"

text \<open>
  \<^verbatim>\<open>memmove(dst, src, k)\<close> on a destination buffer held as a list: the first \<open>k\<close> bytes
  are replaced, the others stay.
\<close>

definition memmove_list :: "byte list \<Rightarrow> byte list \<Rightarrow> nat \<Rightarrow> byte list" where
  "memmove_list dst src k = take k src @ drop k dst"

text \<open>
  \<open>skipelem path name\<close> returns \<open>None\<close> for the null pointer, and otherwise the
  pointer returned together with the buffer \<open>name\<close> as the call leaves it.
\<close>

definition skipelem :: "byte list \<Rightarrow> byte list \<Rightarrow> (byte list \<times> byte list) option" where
  "skipelem path name =
     (let p = skip_slashes path in
      if at_nul p then None
      else
        let s = p;
            p' = skip_name p;
            len = length s - length p';
            name' = (if len \<ge> DIRSIZ then memmove_list name s DIRSIZ
                     else (memmove_list name s len)[len := NUL])
        in Some (skip_slashes p', name'))"

text \<open>The bytes of the C string at a pointer: everything before the first \<open>NUL\<close>.\<close>

definition cstr :: "byte list \<Rightarrow> byte list" where
  "cstr p = takeWhile (\<lambda>c. c \<noteq> NUL) p"

subsection \<open>Inodes and the state of the kernel\<close>

text \<open>
  The flag bits of \<^verbatim>\<open>ip->flags\<close>. The source only ever tests, sets and clears these
  four masks, so the flag word is the set of the bits that are set:
  \<^verbatim>\<open>flags & X\<close> is \<open>X \<in> flags\<close>, \<^verbatim>\<open>flags |= X\<close> inserts and \<^verbatim>\<open>flags &= ~X\<close> removes.
\<close>

datatype flag = I_BUSYR | I_BUSYW | I_VALID | I_FREE

text \<open>
  A fixed-size C array (\<^verbatim>\<open>addrs[NDIRECT+1]\<close>, \<^verbatim>\<open>data[BSIZE]\<close>) is the function from the
  index to the element; the source only uses indices below the declared length.
\<close>

record inode =
  i_dev :: nat
  i_inum :: nat
  i_ref :: int
  i_flags :: "flag set"
  i_readbusy :: int
  i_gen :: nat
  i_type :: int
  i_major :: int
  i_minor :: int
  i_nlink :: int
  i_size :: nat
  i_addrs :: "nat \<Rightarrow> nat"

record dinode =
  d_type :: int
  d_major :: int
  d_minor :: int
  d_nlink :: int
  d_size :: nat
  d_gen :: nat
  d_addrs :: "nat \<Rightarrow> nat"

text \<open>
  The state the routines work on (one device). The buffer cache hands out disk blocks:
  \<open>blocks s b\<close> is the data of block \<open>b\<close>. The inode blocks and the bitmap blocks are
  kept as what the source reads them as, since \<^verbatim>\<open>IBLOCK\<close>, \<^verbatim>\<open>IPB\<close>, \<^verbatim>\<open>BBLOCK\<close> and
  the layout of \<^verbatim>\<open>struct dinode\<close> are in the absent \<^verbatim>\<open>fs.h\<close>: \<open>dinodes s i\<close> is the
  on-disk inode \<open>i\<close> and \<open>bitmap s b\<close> is the in-use bit of block \<open>b\<close>.
  \<open>delayed s\<close> lists the blocks handed to \<^verbatim>\<open>rcu_delayed2(dev, b, bfree)\<close>, oldest first.
  \<open>ins s\<close> is the index of the inode cache, in the order it is enumerated.
  \<open>devsw_read s\<close> and \<open>devsw_write s\<close> are the table \<^verbatim>\<open>devsw\<close> of the device drivers
  (\<open>None\<close> for a null function pointer); a driver returns its result and, for a
  read, the bytes it stored.
\<close>

record kstate =
  sb_size :: nat
  sb_ninodes :: nat
  bitmap :: "nat \<Rightarrow> bool"
  blocks :: "nat \<Rightarrow> nat \<Rightarrow> byte"
  dinodes :: "nat \<Rightarrow> dinode"
  delayed :: "nat list"
  ins :: "(nat \<times> inode) list"
  devsw_read :: "int \<Rightarrow> (inode \<Rightarrow> nat \<Rightarrow> int \<times> byte list) option"
  devsw_write :: "int \<Rightarrow> (inode \<Rightarrow> byte list \<Rightarrow> nat \<Rightarrow> int) option"

text \<open>The \<^verbatim>\<open>uint\<close> array view \<^verbatim>\<open>(uint*)bp->data\<close> of a block (little-endian).\<close>

definition rd_uint :: "(nat \<Rightarrow> byte) \<Rightarrow> nat \<Rightarrow> nat" where
  "rd_uint a j = of_char (a (4 * j)) + 256 * of_char (a (4 * j + 1))
                 + 65536 * of_char (a (4 * j + 2)) + 16777216 * of_char (a (4 * j + 3))"

definition wr_uint :: "(nat \<Rightarrow> byte) \<Rightarrow> nat \<Rightarrow> nat \<Rightarrow> (nat \<Rightarrow> byte)" where
  "wr_uint a j v = a(4 * j := char_of v, 4 * j + 1 := char_of (v div 256),
                     4 * j + 2 := char_of (v div 65536), 4 * j + 3 := char_of (v div 16777216))"

subsection \<open>Faults\<close>

text \<open>
  \<^verbatim>\<open>ilock\<close> and the other routines that wait (\<^verbatim>\<open>cv_sleep\<close>, \<^verbatim>\<open>goto retry\<close>) are
  modelled for one caller at a time: a wait whose condition holds on entry can only
  be ended by another thread, so the call does not return, which is the value
  \<open>Inl Blocked\<close>. \<open>Inl BadPointer\<close> is the use of an inode pointer that is not in the cache.
\<close>

datatype fault = Panicked string | Blocked | BadPointer

definition panic :: "string \<Rightarrow> fault + 'a" where
  "panic msg = Inl (Panicked msg)"

subsection \<open>Blocks: balloc and bfree\<close>

text \<open>The inner loop of \<^verbatim>\<open>balloc\<close> over the bits \<open>bi\<close> of one bitmap block.\<close>

function balloc_inner :: "(nat \<Rightarrow> bool) \<Rightarrow> nat \<Rightarrow> nat \<Rightarrow> nat option" where
  "balloc_inner bm b bi =
     (if bi < BPB then (if \<not> bm (b + bi) then Some (b + bi) else balloc_inner bm b (bi + 1))
      else None)"
  by pat_completeness auto
termination
  by (relation "measure (\<lambda>(bm, b, bi). BPB - bi)") auto

text \<open>The outer loop over the bitmap blocks, \<open>b\<close> the first block number of each.\<close>

function balloc_outer :: "(nat \<Rightarrow> bool) \<Rightarrow> nat \<Rightarrow> nat \<Rightarrow> nat option" where
  "balloc_outer bm sz b =
     (if b < sz then
        (case balloc_inner bm b 0 of Some r \<Rightarrow> Some r | None \<Rightarrow> balloc_outer bm sz (b + BPB))
      else None)"
  by pat_completeness auto
termination
  by (relation "measure (\<lambda>(bm, sz, b). sz - b)") (auto simp: BPB_def)

text \<open>
  The block number returned is below \<open>sb_size s + BPB\<close>; it is a \<^verbatim>\<open>uint\<close> as long as
  the disk has fewer than \<open>2 ^ 32 - BPB\<close> blocks.
\<close>

definition balloc :: "kstate \<Rightarrow> fault + (nat \<times> kstate)" where
  "balloc s =
     (case balloc_outer (bitmap s) (sb_size s) 0 of
        Some r \<Rightarrow> Inr (r, s\<lparr>bitmap := (bitmap s)(r := True)\<rparr>)
      | None \<Rightarrow> panic ''balloc: out of blocks'')"

definition bzero :: "nat \<Rightarrow> kstate \<Rightarrow> kstate" where
  "bzero bno s = s\<lparr>blocks := (blocks s)(bno := (\<lambda>_. NUL))\<rparr>"

definition bfree :: "nat \<Rightarrow> kstate \<Rightarrow> fault + kstate" where
  "bfree b s =
     (let s1 = bzero b s in
      if \<not> bitmap s1 b then panic ''freeing free block''
      else Inr (s1\<lparr>bitmap := (bitmap s1)(b := False)\<rparr>))"

subsection \<open>iupdate, the inode lock, itrunc and iput\<close>

definition iupdate :: "inode \<Rightarrow> kstate \<Rightarrow> kstate" where
  "iupdate ip s =
     s\<lparr>dinodes := (dinodes s)(i_inum ip :=
          \<lparr>d_type = i_type ip, d_major = i_major ip, d_minor = i_minor ip,
           d_nlink = i_nlink ip, d_size = i_size ip, d_gen = i_gen ip,
           d_addrs = i_addrs ip\<rparr>)\<rparr>"

definition ilock :: "inode \<Rightarrow> bool \<Rightarrow> fault + inode" where
  "ilock ip writer =
     (if i_ref ip < 1 then panic ''ilock''
      else if i_flags ip \<inter> ({I_BUSYW} \<union> (if writer then {I_BUSYR} else {})) \<noteq> {}
      then Inl Blocked
      else
        let ip' = ip\<lparr>i_flags := i_flags ip \<union> ({I_BUSYR} \<union> (if writer then {I_BUSYW} else {})),
                     i_readbusy := i_readbusy ip + 1\<rparr>
        in if I_VALID \<notin> i_flags ip' then panic ''ilock'' else Inr ip')"

definition iunlock :: "inode \<Rightarrow> fault + inode" where
  "iunlock ip =
     (if i_flags ip \<inter> {I_BUSYR, I_BUSYW} = {} \<or> i_ref ip < 1 then panic ''iunlock''
      else
        let lastreader = i_readbusy ip - 1
        in Inr (ip\<lparr>i_readbusy := lastreader,
                   i_flags := i_flags ip - ({I_BUSYW} \<union> (if lastreader = 0 then {I_BUSYR} else {}))\<rparr>))"

definition rcu_delayed2 :: "nat \<Rightarrow> kstate \<Rightarrow> kstate" where
  "rcu_delayed2 b s = s\<lparr>delayed := delayed s @ [b]\<rparr>"

text \<open>
  The reclamation itself is in the absent \<^verbatim>\<open>rcu.c\<close>. Modelled from the spec: \<^verbatim>\<open>itrunc\<close>
  schedules \<^verbatim>\<open>bfree\<close> via read-reclamation, so the call is made later, once the readers
  of the time have gone. \<open>rcu_gc\<close> is that later moment: it makes the delayed calls in
  the order they were scheduled.
\<close>

fun bfree_list :: "nat list \<Rightarrow> kstate \<Rightarrow> fault + kstate" where
  "bfree_list [] s = Inr s"
| "bfree_list (b # bs) s = (case bfree b s of Inl e \<Rightarrow> Inl e | Inr s' \<Rightarrow> bfree_list bs s')"

definition rcu_gc :: "kstate \<Rightarrow> fault + kstate" where
  "rcu_gc s = bfree_list (delayed s) (s\<lparr>delayed := []\<rparr>)"

text \<open>The first loop of \<^verbatim>\<open>itrunc\<close>, from index \<open>i\<close> on.\<close>

function itrunc_direct :: "nat \<Rightarrow> inode \<Rightarrow> kstate \<Rightarrow> inode \<times> kstate" where
  "itrunc_direct i ip s =
     (if i < NDIRECT then
        (if i_addrs ip i \<noteq> 0
         then itrunc_direct (i + 1) (ip\<lparr>i_addrs := (i_addrs ip)(i := 0)\<rparr>)
                (rcu_delayed2 (i_addrs ip i) s)
         else itrunc_direct (i + 1) ip s)
      else (ip, s))"
  by pat_completeness auto
termination
  by (relation "measure (\<lambda>(i, ip, s). NDIRECT - i)") auto

text \<open>The loop over the indirect block \<open>a\<close>, from index \<open>j\<close> on.\<close>

function itrunc_indirect :: "nat \<Rightarrow> (nat \<Rightarrow> byte) \<Rightarrow> kstate \<Rightarrow> kstate" where
  "itrunc_indirect j a s =
     (if j < NINDIRECT then
        (if rd_uint a j \<noteq> 0 then itrunc_indirect (j + 1) a (rcu_delayed2 (rd_uint a j) s)
         else itrunc_indirect (j + 1) a s)
      else s)"
  by pat_completeness auto
termination
  by (relation "measure (\<lambda>(j, a, s). NINDIRECT - j)") auto

definition itrunc :: "inode \<Rightarrow> kstate \<Rightarrow> inode \<times> kstate" where
  "itrunc ip s =
     (let (ip1, s1) = itrunc_direct 0 ip s;
          (ip2, s2) =
            (if i_addrs ip1 NDIRECT \<noteq> 0 then
               let a = blocks s1 (i_addrs ip1 NDIRECT);
                   s' = itrunc_indirect 0 a s1;
                   s'' = rcu_delayed2 (i_addrs ip1 NDIRECT) s'
               in (ip1\<lparr>i_addrs := (i_addrs ip1)(NDIRECT := 0)\<rparr>, s'')
             else (ip1, s1));
          ip3 = ip2\<lparr>i_size := 0\<rparr>
      in (ip3, iupdate ip3 s2))"

definition iput :: "inode \<Rightarrow> kstate \<Rightarrow> fault + (inode \<times> kstate)" where
  "iput ip0 s =
     (let ip = ip0\<lparr>i_ref := i_ref ip0 - 1\<rparr> in
      if i_ref ip = 0 then
        (if i_ref ip = 0 \<and> i_nlink ip = 0 then
           (if i_flags ip \<inter> {I_BUSYR, I_BUSYW} \<noteq> {} then panic ''iput busy''
            else if I_VALID \<notin> i_flags ip then panic ''iput not valid''
            else
              let ip1 = ip\<lparr>i_flags := i_flags ip \<union> {I_BUSYR, I_BUSYW},
                          i_readbusy := i_readbusy ip + 1\<rparr>;
                  (ip2, s2) = itrunc ip1 s;
                  ip3 = ip2\<lparr>i_type := 0, i_major := 0, i_minor := 0,
                           i_gen := (i_gen ip2 + 1) mod 2 ^ 32\<rparr>;
                  s3 = iupdate ip3 s2;
                  ip4 = ip3\<lparr>i_flags := i_flags ip3 - {I_BUSYR, I_BUSYW},
                           i_readbusy := i_readbusy ip3 - 1\<rparr>
              in Inr (ip4, s3))
         else Inr (ip, s))
      else Inr (ip, s))"

definition iunlockput :: "inode \<Rightarrow> kstate \<Rightarrow> fault + (inode \<times> kstate)" where
  "iunlockput ip s = (case iunlock ip of Inl e \<Rightarrow> Inl e | Inr ip' \<Rightarrow> iput ip' s)"

subsection \<open>The lock protocol as a transition system\<close>

text \<open>
  The states one in-memory inode reaches under the operations that touch its busy
  flags and \<^verbatim>\<open>readbusy\<close>, each taken as the atomic step it is under the inode's
  spinlock. Next to the inode stands the list of the threads that hold the logical
  lock (a thread once per hold): \<^verbatim>\<open>iunlock\<close> is called by a holder, as its contract
  demands, and the second half of the teardown of \<^verbatim>\<open>iput\<close> by the thread that ran the
  first half. The other rules: a blank entry of \<^verbatim>\<open>iinit\<close>; a fresh entry of \<^verbatim>\<open>iget\<close>,
  held by its creator; \<^verbatim>\<open>ilock\<close> where it does not wait; and any change of the
  other fields and flags.
\<close>

inductive lock_reach :: "inode \<Rightarrow> nat list \<Rightarrow> bool" where
  blank: "i_flags ip = {} \<Longrightarrow> i_readbusy ip = 0 \<Longrightarrow> lock_reach ip []"
| fresh: "i_flags ip = {I_BUSYR, I_BUSYW} \<Longrightarrow> i_readbusy ip = 1 \<Longrightarrow> lock_reach ip [t]"
| other: "lock_reach ip hs \<Longrightarrow>
          i_flags ip' \<inter> {I_BUSYR, I_BUSYW} = i_flags ip \<inter> {I_BUSYR, I_BUSYW} \<Longrightarrow>
          i_readbusy ip' = i_readbusy ip \<Longrightarrow> lock_reach ip' hs"
| lock: "lock_reach ip hs \<Longrightarrow> ilock ip writer = Inr ip' \<Longrightarrow> lock_reach ip' (t # hs)"
| unlock: "lock_reach ip hs \<Longrightarrow> t \<in> set hs \<Longrightarrow> iunlock ip = Inr ip' \<Longrightarrow>
           lock_reach ip' (remove1 t hs)"
| teardown_begin:
    "lock_reach ip hs \<Longrightarrow> i_flags ip \<inter> {I_BUSYR, I_BUSYW} = {} \<Longrightarrow>
     lock_reach (ip\<lparr>i_flags := i_flags ip \<union> {I_BUSYR, I_BUSYW},
                    i_readbusy := i_readbusy ip + 1\<rparr>) (t # hs)"
| teardown_end:
    "lock_reach ip hs \<Longrightarrow> t \<in> set hs \<Longrightarrow> I_BUSYW \<in> i_flags ip \<Longrightarrow>
     lock_reach (ip\<lparr>i_flags := i_flags ip - {I_BUSYR, I_BUSYW},
                    i_readbusy := i_readbusy ip - 1\<rparr>) (remove1 t hs)"

subsection \<open>Inode contents: bmap, readi and writei\<close>

definition bmap :: "inode \<Rightarrow> nat \<Rightarrow> kstate \<Rightarrow> fault + (nat \<times> inode \<times> kstate)" where
  "bmap ip bn s =
     (if bn < NDIRECT then
        (if i_addrs ip bn = 0 then
           (case balloc s of
              Inl e \<Rightarrow> Inl e
            | Inr (addr, s') \<Rightarrow> Inr (addr, ip\<lparr>i_addrs := (i_addrs ip)(bn := addr)\<rparr>, s'))
         else Inr (i_addrs ip bn, ip, s))
      else
        let bn = bn - NDIRECT in
        if bn < NINDIRECT then
          (case (if i_addrs ip NDIRECT = 0 then
                   (case balloc s of
                      Inl e \<Rightarrow> Inl e
                    | Inr (addr, s') \<Rightarrow>
                        Inr (addr, ip\<lparr>i_addrs := (i_addrs ip)(NDIRECT := addr)\<rparr>, s'))
                 else Inr (i_addrs ip NDIRECT, ip, s)) of
             Inl e \<Rightarrow> Inl e
           | Inr (ind, ip1, s1) \<Rightarrow>
               let a = blocks s1 ind in
               if rd_uint a bn = 0 then
                 (case balloc s1 of
                    Inl e \<Rightarrow> Inl e
                  | Inr (addr, s2) \<Rightarrow>
                      Inr (addr, ip1, s2\<lparr>blocks := (blocks s2)(ind := wr_uint a bn addr)\<rparr>))
               else Inr (rd_uint a bn, ip1, s1))
        else panic ''bmap: out of range'')"

text \<open>\<^verbatim>\<open>return n;\<close> where \<open>n\<close> is a \<^verbatim>\<open>uint\<close> and the function returns \<^verbatim>\<open>int\<close>.\<close>

definition as_int :: "nat \<Rightarrow> int" where
  "as_int n = (if n < 2 ^ 31 then int n else int n - 2 ^ 32)"

text \<open>
  The loop of \<^verbatim>\<open>readi\<close>; \<open>dst\<close> collects the bytes stored so far. The additions
  \<^verbatim>\<open>tot += m\<close> and \<^verbatim>\<open>off += m\<close> cannot wrap: \<open>tot + m \<le> n\<close>, and \<^verbatim>\<open>bmap\<close> has
  returned, so that \<open>off < MAXFILE * BSIZE\<close>.
\<close>

function readi_loop ::
  "nat \<Rightarrow> nat \<Rightarrow> nat \<Rightarrow> byte list \<Rightarrow> inode \<Rightarrow> kstate \<Rightarrow> fault + (byte list \<times> inode \<times> kstate)" where
  "readi_loop tot n off dst ip s =
     (if tot < n then
        (case bmap ip (off div BSIZE) s of
           Inl e \<Rightarrow> Inl e
         | Inr (addr, ip', s') \<Rightarrow>
             let m = min (n - tot) (BSIZE - off mod BSIZE) in
             readi_loop (tot + m) n (off + m)
               (dst @ map (\<lambda>i. blocks s' addr (off mod BSIZE + i)) [0..<m]) ip' s')
      else Inr (dst, ip, s))"
  by pat_completeness auto
termination
  by (relation "measure (\<lambda>(tot, n, off, dst, ip, s). n - tot)") (auto simp: BSIZE_def)

definition readi :: "inode \<Rightarrow> nat \<Rightarrow> nat \<Rightarrow> kstate \<Rightarrow> fault + (int \<times> byte list \<times> inode \<times> kstate)" where
  "readi ip off n s =
     (if i_type ip = T_DEV then
        (if i_major ip < 0 \<or> i_major ip \<ge> NDEV then Inr (- 1, [], ip, s)
         else case devsw_read s (i_major ip) of
                None \<Rightarrow> Inr (- 1, [], ip, s)
              | Some rd \<Rightarrow> Inr (fst (rd ip n), snd (rd ip n), ip, s))
      else if off > i_size ip \<or> (off + n) mod 2 ^ 32 < off then Inr (- 1, [], ip, s)
      else
        let n = (if (off + n) mod 2 ^ 32 > i_size ip then i_size ip - off else n) in
        case readi_loop 0 n off [] ip s of
          Inl e \<Rightarrow> Inl e
        | Inr (dst, ip', s') \<Rightarrow> Inr (as_int n, dst, ip', s'))"

text \<open>\<^verbatim>\<open>memmove(bp->data + o, src, m)\<close> into the data of a block.\<close>

definition memmove_blk :: "(nat \<Rightarrow> byte) \<Rightarrow> nat \<Rightarrow> byte list \<Rightarrow> nat \<Rightarrow> (nat \<Rightarrow> byte)" where
  "memmove_blk d o' src m = (\<lambda>i. if o' \<le> i \<and> i < o' + m then src ! (i - o') else d i)"

text \<open>
  The loop of \<^verbatim>\<open>writei\<close>; the pointer \<^verbatim>\<open>src\<close> is the list of the bytes from it on.
  The result is the final \<open>off\<close>.
\<close>

function writei_loop ::
  "nat \<Rightarrow> nat \<Rightarrow> nat \<Rightarrow> byte list \<Rightarrow> inode \<Rightarrow> kstate \<Rightarrow> fault + (nat \<times> inode \<times> kstate)" where
  "writei_loop tot n off src ip s =
     (if tot < n then
        (case bmap ip (off div BSIZE) s of
           Inl e \<Rightarrow> Inl e
         | Inr (addr, ip', s') \<Rightarrow>
             let m = min (n - tot) (BSIZE - off mod BSIZE) in
             writei_loop (tot + m) n (off + m) (drop m src) ip'
               (s'\<lparr>blocks := (blocks s')(addr := memmove_blk (blocks s' addr) (off mod BSIZE) src m)\<rparr>))
      else Inr (off, ip, s))"
  by pat_completeness auto
termination
  by (relation "measure (\<lambda>(tot, n, off, src, ip, s). n - tot)") (auto simp: BSIZE_def)

definition writei :: "inode \<Rightarrow> byte list \<Rightarrow> nat \<Rightarrow> nat \<Rightarrow> kstate \<Rightarrow> fault + (int \<times> inode \<times> kstate)" where
  "writei ip src off n s =
     (if i_type ip = T_DEV then
        (if i_major ip < 0 \<or> i_major ip \<ge> NDEV then Inr (- 1, ip, s)
         else case devsw_write s (i_major ip) of
                None \<Rightarrow> Inr (- 1, ip, s)
              | Some wr \<Rightarrow> Inr (wr ip src n, ip, s))
      else if off > i_size ip \<or> (off + n) mod 2 ^ 32 < off then Inr (- 1, ip, s)
      else
        let n = (if (off + n) mod 2 ^ 32 > MAXFILE * BSIZE
                 then (MAXFILE * BSIZE + 2 ^ 32 - off) mod 2 ^ 32 else n) in
        case writei_loop 0 n off src ip s of
          Inl e \<Rightarrow> Inl e
        | Inr (off', ip', s') \<Rightarrow>
            if n > 0 \<and> off' > i_size ip' then
              let ip'' = ip'\<lparr>i_size := off'\<rparr> in Inr (as_int n, ip'', iupdate ip'' s')
            else Inr (as_int n, ip', s'))"

subsection \<open>Notions used to state the properties\<close>

text \<open>
  The block numbers of a file in the order \<^verbatim>\<open>itrunc\<close> meets them: the direct blocks,
  then the entries of the indirect block, then the indirect block itself.
\<close>

definition file_blocks :: "inode \<Rightarrow> kstate \<Rightarrow> nat list" where
  "file_blocks ip s =
     filter (\<lambda>b. b \<noteq> 0) (map (i_addrs ip) [0..<NDIRECT])
     @ (if i_addrs ip NDIRECT \<noteq> 0
        then filter (\<lambda>b. b \<noteq> 0) (map (rd_uint (blocks s (i_addrs ip NDIRECT))) [0..<NINDIRECT])
             @ [i_addrs ip NDIRECT]
        else [])"

text \<open>The array \<^verbatim>\<open>addrs[NDIRECT+1]\<close> with every entry zero.\<close>

definition zero_addrs :: "(nat \<Rightarrow> nat) \<Rightarrow> (nat \<Rightarrow> nat)" where
  "zero_addrs a = (\<lambda>k. if k \<le> NDIRECT then 0 else a k)"

text \<open>
  The block that holds block \<open>bn\<close> of a file, read off the inode and its indirect
  block without allocating; 0 where there is none.
\<close>

definition blk_of :: "inode \<Rightarrow> kstate \<Rightarrow> nat \<Rightarrow> nat" where
  "blk_of ip s bn =
     (if bn < NDIRECT then i_addrs ip bn
      else if i_addrs ip NDIRECT = 0 then 0
      else rd_uint (blocks s (i_addrs ip NDIRECT)) (bn - NDIRECT))"

definition mapped :: "inode \<Rightarrow> kstate \<Rightarrow> nat \<Rightarrow> bool" where
  "mapped ip s bn \<longleftrightarrow> bn < MAXFILE \<and> blk_of ip s bn \<noteq> 0"

text \<open>Byte \<open>k\<close> of the contents of a file.\<close>

definition fbyte :: "inode \<Rightarrow> kstate \<Rightarrow> nat \<Rightarrow> byte" where
  "fbyte ip s k = blocks s (blk_of ip s (k div BSIZE)) (k mod BSIZE)"

text \<open>
  A file has no holes when every block that holds a byte below its size is there.
  \<^verbatim>\<open>writei\<close> keeps files so, as it refuses to write beyond the size.
\<close>

definition no_holes :: "inode \<Rightarrow> kstate \<Rightarrow> bool" where
  "no_holes ip s \<longleftrightarrow> (\<forall>bn < (i_size ip + (BSIZE - 1)) div BSIZE. mapped ip s bn)"

text \<open>
  A file and the disk fit together when block 0 is in use (so that \<^verbatim>\<open>balloc\<close> never
  returns 0), block numbers are \<^verbatim>\<open>uint\<close>s, the free blocks are zeroed (as \<^verbatim>\<open>bfree\<close>
  leaves them), and the blocks of the file, the indirect block among them, are in use
  and all different.
\<close>

definition wf_file :: "inode \<Rightarrow> kstate \<Rightarrow> bool" where
  "wf_file ip s \<longleftrightarrow>
     bitmap s 0 \<and> sb_size s + BPB \<le> 2 ^ 32
     \<and> (\<forall>b. \<not> bitmap s b \<longrightarrow> (\<forall>i<BSIZE. blocks s b i = NUL))
     \<and> (i_addrs ip NDIRECT \<noteq> 0 \<longrightarrow> bitmap s (i_addrs ip NDIRECT))
     \<and> (\<forall>bn<MAXFILE. blk_of ip s bn \<noteq> 0 \<longrightarrow>
            bitmap s (blk_of ip s bn) \<and> blk_of ip s bn \<noteq> i_addrs ip NDIRECT)
     \<and> (\<forall>bn<MAXFILE. \<forall>bn'<MAXFILE. blk_of ip s bn \<noteq> 0 \<longrightarrow>
            blk_of ip s bn = blk_of ip s bn' \<longrightarrow> bn = bn')"

text \<open>The count \<^verbatim>\<open>writei\<close> writes: \<open>n\<close> clamped to \<open>MAXFILE * BSIZE - off\<close>.\<close>

definition wclamp :: "nat \<Rightarrow> nat \<Rightarrow> nat" where
  "wclamp off n = (if off + n > MAXFILE * BSIZE then MAXFILE * BSIZE - off else n)"

text \<open>
  The blocks \<^verbatim>\<open>balloc\<close> can hand out: the free ones among the bits of the bitmap blocks
  its outer loop visits, which end at \<open>sb_size\<close> rounded up to a multiple of \<open>BPB\<close>.
\<close>

definition scan_limit :: "kstate \<Rightarrow> nat" where
  "scan_limit s = ((sb_size s + (BPB - 1)) div BPB) * BPB"

definition free_blocks :: "kstate \<Rightarrow> nat set" where
  "free_blocks s = {b. b < scan_limit s \<and> \<not> bitmap s b}"

text \<open>
  The delayed calls of \<^verbatim>\<open>bfree\<close> that are pending fit a file when they are for
  different blocks, all in use, none of them a block of the file.
\<close>

definition pending_ok :: "inode \<Rightarrow> kstate \<Rightarrow> bool" where
  "pending_ok ip s \<longleftrightarrow>
     distinct (delayed s)
     \<and> (\<forall>b \<in> set (delayed s). bitmap s b \<and> b \<notin> set (file_blocks ip s))"

subsection \<open>Example states\<close>

text \<open>An inode as \<^verbatim>\<open>iget\<close> has just loaded it, still held exclusively by its creator.\<close>

definition ex_ip :: inode where
  "ex_ip = \<lparr>i_dev = 1, i_inum = 7, i_ref = 1, i_flags = {I_BUSYR, I_BUSYW, I_VALID},
           i_readbusy = 1, i_gen = 0, i_type = 2, i_major = 0, i_minor = 0, i_nlink = 1,
           i_size = 0, i_addrs = (\<lambda>_. 0)\<rparr>"

text \<open>A file of 1000 bytes in two blocks with no link left and one reference, and a disk.\<close>

definition ex_file :: inode where
  "ex_file = \<lparr>i_dev = 1, i_inum = 7, i_ref = 1, i_flags = {I_VALID},
           i_readbusy = 0, i_gen = 4, i_type = 2, i_major = 0, i_minor = 0, i_nlink = 0,
           i_size = 1000, i_addrs = (\<lambda>k. if k = 0 then 40 else if k = 1 then 41 else 0)\<rparr>"

text \<open>That inode after its last reference is dropped.\<close>

definition ex_gone :: inode where
  "ex_gone = \<lparr>i_dev = 1, i_inum = 7, i_ref = 0, i_flags = {I_VALID},
           i_readbusy = 0, i_gen = 5, i_type = 0, i_major = 0, i_minor = 0, i_nlink = 0,
           i_size = 0, i_addrs = (\<lambda>_. 0)\<rparr>"

definition free_dinode :: dinode where
  "free_dinode = \<lparr>d_type = 0, d_major = 0, d_minor = 0, d_nlink = 0, d_size = 0, d_gen = 0,
                  d_addrs = (\<lambda>_. 0)\<rparr>"

definition ex_disk :: kstate where
  "ex_disk = \<lparr>sb_size = 1024, sb_ninodes = 200, bitmap = (\<lambda>b. b < 42),
              blocks = (\<lambda>b i. if b = 40 then CHR ''a'' else if b = 41 then CHR ''b'' else NUL),
              dinodes = (\<lambda>i. free_dinode), delayed = [], ins = [],
              devsw_read = (\<lambda>_. None), devsw_write = (\<lambda>_. None)\<rparr>"

text \<open>The disk after that drop: the two blocks are in the list of the delayed calls.\<close>

definition ex_after :: kstate where
  "ex_after = ex_disk\<lparr>delayed := [40, 41],
            dinodes := (dinodes ex_disk)(7 :=
              \<lparr>d_type = 0, d_major = 0, d_minor = 0, d_nlink = 0, d_size = 0, d_gen = 5,
               d_addrs = (\<lambda>_. 0)\<rparr>)\<rparr>"

text \<open>A file as \<^verbatim>\<open>ialloc\<close> returns it: no contents yet.\<close>

definition ex_fresh :: inode where
  "ex_fresh = \<lparr>i_dev = 1, i_inum = 8, i_ref = 1, i_flags = {I_BUSYR, I_BUSYW, I_VALID},
           i_readbusy = 1, i_gen = 1, i_type = 2, i_major = 0, i_minor = 0, i_nlink = 0,
           i_size = 0, i_addrs = (\<lambda>_. 0)\<rparr>"

text \<open>The same disk with no block left.\<close>

definition ex_full :: kstate where
  "ex_full = ex_disk\<lparr>bitmap := (\<lambda>b. True)\<rparr>"

section \<open>Properties\<close>

subsection \<open>Facts about skipelem\<close>

lemma skip_slashes_dropWhile: "skip_slashes p = dropWhile (\<lambda>c. c = SLASH) p"
  by (induction p) auto

lemma skip_name_dropWhile: "skip_name p = dropWhile (\<lambda>c. c \<noteq> SLASH \<and> c \<noteq> NUL) p"
  by (induction p) auto

lemma skip_name_length:
  "length p - length (skip_name p) = length (takeWhile (\<lambda>c. c \<noteq> SLASH \<and> c \<noteq> NUL) p)"
proof -
  have "length (takeWhile (\<lambda>c. c \<noteq> SLASH \<and> c \<noteq> NUL) p) + length (skip_name p) = length p"
    unfolding skip_name_dropWhile
    by (metis length_append takeWhile_dropWhile_id)
  then show ?thesis by arith
qed

lemma take_length_takeWhile: "take (length (takeWhile P p)) p = takeWhile P p"
  by (induction p) auto

lemma at_nul_cstr: "at_nul p \<longleftrightarrow> cstr p = []"
  by (cases p) (auto simp: cstr_def)

lemma cstr_skip_slashes:
  "cstr (skip_slashes p) = dropWhile (\<lambda>c. c = SLASH) (cstr p)"
  by (induction p) (auto simp: cstr_def NUL_def SLASH_def)

lemma none_iff_only_slashes: "at_nul (skip_slashes path) \<longleftrightarrow> set (cstr path) \<subseteq> {SLASH}"
  by (auto simp: at_nul_cstr cstr_skip_slashes dropWhile_eq_Nil_conv)

subsection \<open>The lock protocol\<close>

lemma lock_reach_holders:
  "lock_reach ip hs \<Longrightarrow>
     i_readbusy ip = int (length hs) \<and> (I_BUSYR \<in> i_flags ip \<longleftrightarrow> hs \<noteq> [])
     \<and> (I_BUSYW \<in> i_flags ip \<longrightarrow> length hs = 1)"
proof (induction rule: lock_reach.induct)
  case (blank ip)
  then show ?case by simp
next
  case (fresh ip t)
  then show ?case by simp
next
  case (other ip hs ip')
  then show ?case by auto
next
  case (lock ip hs writer ip' t)
  then show ?case
    by (cases writer) (auto simp: ilock_def panic_def Let_def split: if_splits)
next
  case (unlock ip hs t ip')
  from unlock.hyps(2) have len: "length (remove1 t hs) = length hs - 1" "hs \<noteq> []"
    by (auto simp: length_remove1)
  from unlock.hyps(2) have pos: "length hs \<ge> 1" by (cases hs) auto
  have "remove1 t hs = [] \<longleftrightarrow> length (remove1 t hs) = 0" by simp
  also have "\<dots> \<longleftrightarrow> length hs = 1" using len(1) pos by arith
  finally have nil: "remove1 t hs = [] \<longleftrightarrow> length hs = 1" .
  from unlock.hyps(3) unlock.IH len pos nil show ?case
    by (auto simp: iunlock_def panic_def Let_def split: if_splits)
next
  case (teardown_begin ip hs t)
  then show ?case by auto
next
  case (teardown_end ip hs t)
  then have "length hs = 1" by simp
  with teardown_end.hyps(2) have "hs = [t]" by (cases hs) auto
  with teardown_end show ?case by auto
qed

text \<open>
  Claim C3. Every state an in-memory inode reaches under the lock operations (\<^verbatim>\<open>ilock\<close>,
  \<^verbatim>\<open>iunlock\<close>, the busy-flag transitions of \<^verbatim>\<open>iget\<close> and \<^verbatim>\<open>iput\<close>) satisfies:
  \<open>BUSYW\<close> set implies \<open>readbusy = 1\<close> and \<open>BUSYR\<close> set, and \<open>BUSYR\<close> set implies
  \<open>readbusy \<ge> 1\<close>. And \<^verbatim>\<open>iunlock\<close>, where it returns, decrements \<open>readbusy\<close>, clears
  \<open>BUSYR\<close> exactly when \<open>readbusy\<close> reaches zero, and always clears \<open>BUSYW\<close>.
\<close>

theorem lock_invariant:
  "(lock_reach ip hs \<longrightarrow>
      (I_BUSYW \<in> i_flags ip \<longrightarrow> i_readbusy ip = 1 \<and> I_BUSYR \<in> i_flags ip)
      \<and> (I_BUSYR \<in> i_flags ip \<longrightarrow> i_readbusy ip \<ge> 1))
   \<and> (iunlock ip = Inr ip' \<longrightarrow>
        i_readbusy ip' = i_readbusy ip - 1
        \<and> (I_BUSYR \<in> i_flags ip' \<longleftrightarrow> I_BUSYR \<in> i_flags ip \<and> i_readbusy ip' \<noteq> 0)
        \<and> I_BUSYW \<notin> i_flags ip')"
proof (intro conjI impI)
  assume r: "lock_reach ip hs"
  note h = lock_reach_holders[OF r]
  { assume "I_BUSYW \<in> i_flags ip"
    with h show "i_readbusy ip = 1" by simp }
  { assume "I_BUSYW \<in> i_flags ip"
    with h show "I_BUSYR \<in> i_flags ip" by auto }
  { assume "I_BUSYR \<in> i_flags ip"
    with h have "hs \<noteq> []" by simp
    then have "length hs \<ge> 1" by (cases hs) auto
    with h show "1 \<le> i_readbusy ip" by simp }
next
  assume u: "iunlock ip = Inr ip'"
  then show "i_readbusy ip' = i_readbusy ip - 1"
    by (auto simp: iunlock_def panic_def Let_def split: if_splits)
next
  assume u: "iunlock ip = Inr ip'"
  then show "I_BUSYR \<in> i_flags ip' \<longleftrightarrow> I_BUSYR \<in> i_flags ip \<and> i_readbusy ip' \<noteq> 0"
    by (auto simp: iunlock_def panic_def Let_def split: if_splits)
next
  assume u: "iunlock ip = Inr ip'"
  then show "I_BUSYW \<notin> i_flags ip'"
    by (auto simp: iunlock_def panic_def Let_def split: if_splits)
qed

theorem lock_invariant_witness:
  "lock_reach ex_ip [0] \<and> I_BUSYW \<in> i_flags ex_ip \<and> i_readbusy ex_ip = 1
   \<and> iunlock ex_ip = Inr (ex_ip\<lparr>i_readbusy := 0, i_flags := {I_VALID}\<rparr>)
   \<and> I_BUSYW \<notin> i_flags (ex_ip\<lparr>i_readbusy := 0, i_flags := {I_VALID}\<rparr>)"
proof -
  have "lock_reach (ex_ip\<lparr>i_flags := {I_BUSYR, I_BUSYW}\<rparr>) [0]"
    by (rule lock_reach.fresh) (simp_all add: ex_ip_def)
  then have r: "lock_reach ex_ip [0]"
    by (rule lock_reach.other) (auto simp: ex_ip_def)
  have u: "iunlock ex_ip = Inr (ex_ip\<lparr>i_readbusy := 0, i_flags := {I_VALID}\<rparr>)"
    by (auto simp: iunlock_def ex_ip_def panic_def)
  show ?thesis
    using lock_invariant[of ex_ip "[0]" "ex_ip\<lparr>i_readbusy := 0, i_flags := {I_VALID}\<rparr>"] r u
    by (simp add: ex_ip_def)
qed

subsection \<open>skipelem\<close>

text \<open>
  Claim C9. For every path string, \<^verbatim>\<open>skipelem(path, name)\<close> strips the leading slashes
  and, when a component remains, copies that one component into \<open>name\<close>: followed by a
  \<open>NUL\<close> when it is shorter than \<open>DIRSIZ\<close>, and cut to exactly \<open>DIRSIZ\<close> bytes with no
  \<open>NUL\<close> written when it has \<open>DIRSIZ\<close> bytes or more. It returns the rest of the path
  with its leading slashes stripped, and the null pointer when no component remains
  (the string is empty or holds slashes only). The buffer \<open>name\<close> has room for
  \<open>DIRSIZ\<close> bytes, as \<^verbatim>\<open>namex\<close> demands of its callers.
\<close>

theorem skipelem_component:
  assumes "DIRSIZ \<le> length name"
  shows "skipelem path name =
     (let p = dropWhile (\<lambda>c. c = SLASH) path;
          elem = takeWhile (\<lambda>c. c \<noteq> SLASH \<and> c \<noteq> NUL) p
      in if set (cstr path) \<subseteq> {SLASH} then None
         else Some (dropWhile (\<lambda>c. c = SLASH) (drop (length elem) p),
                    if length elem < DIRSIZ then elem @ NUL # drop (length elem + 1) name
                    else take DIRSIZ elem @ drop DIRSIZ name))
     \<and> NUL \<notin> set (takeWhile (\<lambda>c. c \<noteq> SLASH \<and> c \<noteq> NUL) (dropWhile (\<lambda>c. c = SLASH) path))"
proof -
  let ?p = "dropWhile (\<lambda>c. c = SLASH) path"
  let ?Q = "\<lambda>c. c \<noteq> SLASH \<and> c \<noteq> NUL"
  let ?e = "takeWhile ?Q ?p"
  have len: "length ?p - length (skip_name ?p) = length ?e"
    by (rule skip_name_length)
  have rest: "skip_name ?p = drop (length ?e) ?p"
    by (metis skip_name_dropWhile dropWhile_eq_drop)
  have tk: "take (length ?e) ?p = ?e" by (rule take_length_takeWhile)
  have short: "length ?e < DIRSIZ \<Longrightarrow>
      (memmove_list name ?p (length ?e))[length ?e := NUL] = ?e @ NUL # drop (length ?e + 1) name"
  proof -
    assume a: "length ?e < DIRSIZ"
    then have b: "length ?e < length name" using assms by simp
    have "drop (length ?e) name = name ! (length ?e) # drop (length ?e + 1) name"
      using b by (simp add: Cons_nth_drop_Suc)
    then show ?thesis
      by (simp add: memmove_list_def tk list_update_append)
  qed
  have long: "DIRSIZ \<le> length ?e \<Longrightarrow>
      memmove_list name ?p DIRSIZ = take DIRSIZ ?e @ drop DIRSIZ name"
  proof -
    assume a: "DIRSIZ \<le> length ?e"
    have "take DIRSIZ (take (length ?e) ?p) = take DIRSIZ ?p" using a by (simp add: min_def)
    then show ?thesis by (simp add: memmove_list_def tk)
  qed
  have nonul: "NUL \<notin> set ?e" by (auto dest: set_takeWhileD)
  have "skipelem path name =
      (if at_nul ?p then None
       else Some (skip_slashes (skip_name ?p),
                  if DIRSIZ \<le> length ?e then memmove_list name ?p DIRSIZ
                  else (memmove_list name ?p (length ?e))[length ?e := NUL]))"
    by (simp only: skipelem_def Let_def skip_slashes_dropWhile len)
  also have "\<dots> =
      (if set (cstr path) \<subseteq> {SLASH} then None
       else Some (dropWhile (\<lambda>c. c = SLASH) (drop (length ?e) ?p),
                  if length ?e < DIRSIZ then ?e @ NUL # drop (length ?e + 1) name
                  else take DIRSIZ ?e @ drop DIRSIZ name))"
  proof (cases "length ?e < DIRSIZ")
    case True
    then show ?thesis
      using short
      by (simp add: none_iff_only_slashes[symmetric] skip_slashes_dropWhile rest
          del: dropWhile_eq_Nil_conv)
  next
    case False
    then show ?thesis
      using long
      by (simp add: none_iff_only_slashes[symmetric] skip_slashes_dropWhile rest
          del: dropWhile_eq_Nil_conv)
  qed
  finally show ?thesis
    using nonul by (simp add: Let_def)
qed

theorem skipelem_component_witness:
  "DIRSIZ \<le> length ''xxxxxxxxxxxxxx''
   \<and> skipelem ''///a//bb'' ''xxxxxxxxxxxxxx'' = Some (''bb'', CHR ''a'' # NUL # ''xxxxxxxxxxxx'')"
proof -
  have h: "DIRSIZ \<le> length ''xxxxxxxxxxxxxx''" by (simp add: DIRSIZ_def)
  from skipelem_component[OF h, of "''///a//bb''"] h show ?thesis
    by (simp add: cstr_def SLASH_def NUL_def DIRSIZ_def)
qed

text \<open>The examples of the comment above \<^verbatim>\<open>skipelem\<close>, and a component of 17 bytes.\<close>

lemma skipelem_examples:
  "skipelem ''a/bb/c'' ''xxxxxxxxxxxxxx'' = Some (''bb/c'', CHR ''a'' # NUL # ''xxxxxxxxxxxx'')"
  "skipelem ''a'' ''xxxxxxxxxxxxxx'' = Some ('''', CHR ''a'' # NUL # ''xxxxxxxxxxxx'')"
  "skipelem '''' ''xxxxxxxxxxxxxx'' = None"
  "skipelem ''////'' ''xxxxxxxxxxxxxx'' = None"
  "skipelem ''abcdefghijklmnopq/r'' ''xxxxxxxxxxxxxx'' = Some (''r'', ''abcdefghijklmn'')"
  by (simp_all add: skipelem_def SLASH_def NUL_def DIRSIZ_def memmove_list_def)

subsection \<open>itrunc and iput\<close>

declare itrunc_direct.simps [simp del] itrunc_indirect.simps [simp del]

lemma map_upd_above: "i < j \<Longrightarrow> map (f(i := v)) [j..<n] = map f [j..<n]"
  by (rule map_cong) auto

lemma itrunc_direct_eq:
  "itrunc_direct i ip s =
     (ip\<lparr>i_addrs := (\<lambda>k. if i \<le> k \<and> k < NDIRECT then 0 else i_addrs ip k)\<rparr>,
      s\<lparr>delayed := delayed s @ filter (\<lambda>b. b \<noteq> 0) (map (i_addrs ip) [i..<NDIRECT])\<rparr>)"
proof (induction i ip s rule: itrunc_direct.induct)
  case (1 i ip s)
  show ?case
  proof (cases "i < NDIRECT")
    case False
    then have "(\<lambda>k. if i \<le> k \<and> k < NDIRECT then 0 else i_addrs ip k) = i_addrs ip"
      by (intro ext) auto
    with False show ?thesis
      by (subst itrunc_direct.simps) simp
  next
    case True
    then have upt: "[i..<NDIRECT] = i # [Suc i..<NDIRECT]" by (simp add: upt_conv_Cons)
    show ?thesis
    proof (cases "i_addrs ip i = 0")
      case z: True
      have f: "(\<lambda>k. if i + 1 \<le> k \<and> k < NDIRECT then 0 else i_addrs ip k)
               = (\<lambda>k. if i \<le> k \<and> k < NDIRECT then 0 else i_addrs ip k)"
      proof (intro ext)
        fix k show "(if i + 1 \<le> k \<and> k < NDIRECT then 0 else i_addrs ip k)
               = (if i \<le> k \<and> k < NDIRECT then 0 else i_addrs ip k)"
          using z by (cases "k = i") auto
      qed
      show ?thesis
        using True z "1.IH"(2)[OF True] f
        by (subst itrunc_direct.simps) (simp add: upt)
    next
      case nz: False
      let ?ip1 = "ip\<lparr>i_addrs := (i_addrs ip)(i := 0)\<rparr>"
      let ?s1 = "rcu_delayed2 (i_addrs ip i) s"
      have step: "itrunc_direct i ip s = itrunc_direct (i + 1) ?ip1 ?s1"
        using True nz by (subst itrunc_direct.simps) simp
      have m: "map ((i_addrs ip)(i := 0)) [Suc i..<NDIRECT] = map (i_addrs ip) [Suc i..<NDIRECT]"
        by (rule map_upd_above) simp
      have f: "(\<lambda>k. if i + 1 \<le> k \<and> k < NDIRECT then 0 else ((i_addrs ip)(i := 0)) k)
               = (\<lambda>k. if i \<le> k \<and> k < NDIRECT then 0 else i_addrs ip k)"
        using True by (intro ext) auto
      have ih: "itrunc_direct (i + 1) ?ip1 ?s1 =
         (?ip1\<lparr>i_addrs := (\<lambda>k. if i + 1 \<le> k \<and> k < NDIRECT then 0 else i_addrs ?ip1 k)\<rparr>,
          ?s1\<lparr>delayed := delayed ?s1 @ filter (\<lambda>b. b \<noteq> 0) (map (i_addrs ?ip1) [i + 1..<NDIRECT])\<rparr>)"
        using "1.IH"(1)[OF True nz] .
      have sel: "i_addrs ?ip1 = (i_addrs ip)(i := 0)" by simp
      have d: "delayed ?s1 = delayed s @ [i_addrs ip i]" by (simp add: rcu_delayed2_def)
      have r1: "?ip1\<lparr>i_addrs := (\<lambda>k. if i \<le> k \<and> k < NDIRECT then 0 else i_addrs ip k)\<rparr>
              = ip\<lparr>i_addrs := (\<lambda>k. if i \<le> k \<and> k < NDIRECT then 0 else i_addrs ip k)\<rparr>"
        by simp
      have r2: "\<And>xs. ?s1\<lparr>delayed := xs\<rparr> = s\<lparr>delayed := xs\<rparr>"
        by (simp add: rcu_delayed2_def)
      have l: "filter (\<lambda>b. b \<noteq> 0) (map (i_addrs ip) [i..<NDIRECT])
               = i_addrs ip i # filter (\<lambda>b. b \<noteq> 0) (map (i_addrs ip) [Suc i..<NDIRECT])"
        using nz by (simp add: upt)
      show ?thesis
        unfolding step ih sel f d r1 r2 l
        using m by simp
    qed
  qed
qed

lemma itrunc_indirect_eq:
  "itrunc_indirect j a s =
     s\<lparr>delayed := delayed s @ filter (\<lambda>b. b \<noteq> 0) (map (rd_uint a) [j..<NINDIRECT])\<rparr>"
proof (induction j a s rule: itrunc_indirect.induct)
  case (1 j a s)
  show ?case
  proof (cases "j < NINDIRECT")
    case False
    then show ?thesis by (subst itrunc_indirect.simps) simp
  next
    case True
    then have upt: "[j..<NINDIRECT] = j # [Suc j..<NINDIRECT]" by (simp add: upt_conv_Cons)
    show ?thesis
      using True "1.IH"(1)[OF True] "1.IH"(2)[OF True]
      by (subst itrunc_indirect.simps) (simp add: upt rcu_delayed2_def)
  qed
qed

lemma itrunc_eq:
  "itrunc ip s =
     (ip\<lparr>i_addrs := zero_addrs (i_addrs ip), i_size := 0\<rparr>,
      iupdate (ip\<lparr>i_addrs := zero_addrs (i_addrs ip), i_size := 0\<rparr>)
        (s\<lparr>delayed := delayed s @ file_blocks ip s\<rparr>))"
proof -
  have a: "(\<lambda>k. if k < NDIRECT then 0 else i_addrs ip k)(NDIRECT := 0) = zero_addrs (i_addrs ip)"
    by (intro ext) (auto simp: zero_addrs_def)
  have b: "i_addrs ip NDIRECT = 0 \<Longrightarrow>
     (\<lambda>k. if k < NDIRECT then 0 else i_addrs ip k) = zero_addrs (i_addrs ip)"
    by (intro ext) (auto simp: zero_addrs_def le_less)
  show ?thesis
    by (auto simp: itrunc_def itrunc_direct_eq itrunc_indirect_eq Let_def file_blocks_def
        rcu_delayed2_def a b iupdate_def)
qed

text \<open>
  Claim C10. For an in-memory inode with \<open>ref \<ge> 1\<close>, when \<^verbatim>\<open>iput\<close> does not take the
  teardown path (\<open>ref\<close> stays positive after the decrement, or it reaches zero while
  \<open>nlink\<close> is not zero), the only change is that \<open>ref\<close> is one less: every other
  field of the inode and the whole state (the on-disk inodes, the bitmap, the blocks,
  the list of blocks handed over for \<^verbatim>\<open>bfree\<close>) are as before.
\<close>

theorem iput_frame:
  assumes "1 < i_ref ip \<or> (i_ref ip = 1 \<and> i_nlink ip \<noteq> 0)"
  shows "iput ip s = Inr (ip\<lparr>i_ref := i_ref ip - 1\<rparr>, s)"
  using assms by (auto simp: iput_def Let_def)

theorem iput_frame_witness:
  "(1 < i_ref ex_ip \<or> (i_ref ex_ip = 1 \<and> i_nlink ex_ip \<noteq> 0))
   \<and> iput ex_ip ex_disk = Inr (ex_ip\<lparr>i_ref := 0\<rparr>, ex_disk)"
proof -
  have h: "1 < i_ref ex_ip \<or> (i_ref ex_ip = 1 \<and> i_nlink ex_ip \<noteq> 0)"
    by (simp add: ex_ip_def)
  from iput_frame[OF h, of ex_disk] h show ?thesis by (simp add: ex_ip_def)
qed

subsection \<open>bmap and readi\<close>

declare readi_loop.simps [simp del] writei_loop.simps [simp del]
  balloc_inner.simps [simp del] balloc_outer.simps [simp del]

lemma bmap_mapped: "mapped ip s bn \<Longrightarrow> bmap ip bn s = Inr (blk_of ip s bn, ip, s)"
  by (auto simp: mapped_def bmap_def blk_of_def MAXFILE_def NDIRECT_def NINDIRECT_def Let_def)

lemma bmap_in_range: "bmap ip bn s = Inr r \<Longrightarrow> bn < MAXFILE"
  by (auto simp: bmap_def MAXFILE_def NDIRECT_def NINDIRECT_def Let_def panic_def split: if_splits)

text \<open>Positions within one block.\<close>

lemma chunk_div: "i < BSIZE - off mod BSIZE \<Longrightarrow> (off + i) div BSIZE = off div BSIZE"
proof -
  assume a: "i < BSIZE - off mod BSIZE"
  have "off + i = off div BSIZE * BSIZE + (off mod BSIZE + i)" by simp
  moreover have "off mod BSIZE + i < BSIZE" using a by simp
  ultimately show ?thesis
    by (metis add.commute div_mult_self3 div_less add_cancel_right_right BSIZE_def zero_neq_numeral)
qed

lemma chunk_mod: "i < BSIZE - off mod BSIZE \<Longrightarrow> (off + i) mod BSIZE = off mod BSIZE + i"
proof -
  assume a: "i < BSIZE - off mod BSIZE"
  have "off + i = off div BSIZE * BSIZE + (off mod BSIZE + i)" by simp
  moreover have "off mod BSIZE + i < BSIZE" using a by simp
  ultimately show ?thesis
    by (metis mod_mult_self3 mod_less)
qed

lemma chunk_bytes:
  assumes "m \<le> BSIZE - off mod BSIZE"
  shows "map (\<lambda>i. blocks s (blk_of ip s (off div BSIZE)) (off mod BSIZE + i)) [0..<m]
         = map (fbyte ip s) [off..<off + m]"
proof -
  have "map (fbyte ip s) [off..<off + m] = map (\<lambda>i. fbyte ip s (off + i)) [0..<m]"
    by (simp add: map_add_upt[symmetric] o_def add.commute)
  also have "\<dots> = map (\<lambda>i. blocks s (blk_of ip s (off div BSIZE)) (off mod BSIZE + i)) [0..<m]"
    using assms by (intro map_cong) (auto simp: fbyte_def chunk_div chunk_mod)
  finally show ?thesis by simp
qed

lemma readi_loop_mapped:
  "(\<forall>bn. off div BSIZE \<le> bn \<and> bn * BSIZE < off + (n - tot) \<longrightarrow> mapped ip s bn) \<Longrightarrow>
   readi_loop tot n off dst ip s = Inr (dst @ map (fbyte ip s) [off..<off + (n - tot)], ip, s)"
proof (induction tot n off dst ip s rule: readi_loop.induct)
  case (1 tot n off dst ip s)
  show ?case
  proof (cases "tot < n")
    case False
    then show ?thesis by (subst readi_loop.simps) simp
  next
    case True
    let ?m = "min (n - tot) (BSIZE - off mod BSIZE)"
    have mpos: "0 < ?m" using True by (simp add: BSIZE_def)
    have "off div BSIZE * BSIZE \<le> off" by simp
    then have "off div BSIZE * BSIZE < off + (n - tot)" using True by linarith
    with "1.prems" have mp: "mapped ip s (off div BSIZE)" by simp
    have bm: "bmap ip (off div BSIZE) s = Inr (blk_of ip s (off div BSIZE), ip, s)"
      by (rule bmap_mapped[OF mp])
    have nxt: "\<forall>bn. (off + ?m) div BSIZE \<le> bn \<and> bn * BSIZE < off + ?m + (n - (tot + ?m))
                \<longrightarrow> mapped ip s bn"
    proof (intro allI impI)
      fix bn assume a: "(off + ?m) div BSIZE \<le> bn \<and> bn * BSIZE < off + ?m + (n - (tot + ?m))"
      have "off div BSIZE \<le> (off + ?m) div BSIZE" by (simp add: div_le_mono)
      moreover have "off + ?m + (n - (tot + ?m)) = off + (n - tot)" using True by simp
      ultimately show "mapped ip s bn" using a "1.prems" by auto
    qed
    have ih: "readi_loop (tot + ?m) n (off + ?m)
               (dst @ map (\<lambda>i. blocks s (blk_of ip s (off div BSIZE)) (off mod BSIZE + i)) [0..<?m])
               ip s
             = Inr ((dst @ map (\<lambda>i. blocks s (blk_of ip s (off div BSIZE)) (off mod BSIZE + i)) [0..<?m])
                    @ map (fbyte ip s) [off + ?m..<off + ?m + (n - (tot + ?m))], ip, s)"
      by (rule "1.IH"[OF True bm refl refl refl nxt])
    have split: "[off..<off + (n - tot)] = [off..<off + ?m] @ [off + ?m..<off + ?m + (n - (tot + ?m))]"
    proof -
      have e: "off + ?m + (n - (tot + ?m)) = off + (n - tot)" using True by simp
      have "[off..<off + ?m + (n - (tot + ?m))] = [off..<off + ?m] @ [off + ?m..<off + ?m + (n - (tot + ?m))]"
        by (rule upt_add_eq_append) simp
      then show ?thesis unfolding e .
    qed
    have cb: "map (\<lambda>i. blocks s (blk_of ip s (off div BSIZE)) (off mod BSIZE + i)) [0..<?m]
              = map (fbyte ip s) [off..<off + ?m]"
      by (rule chunk_bytes) simp
    show ?thesis
      apply (subst readi_loop.simps)
      apply (simp only: True if_True bm sum.case prod.case Let_def ih)
      apply (simp only: cb split map_append append_assoc)
      done
  qed
qed

lemma chunk_end: "off div BSIZE < MAXFILE \<Longrightarrow> off + (BSIZE - off mod BSIZE) \<le> MAXFILE * BSIZE"
proof -
  assume a: "off div BSIZE < MAXFILE"
  have "off + (BSIZE - off mod BSIZE) = (off div BSIZE + 1) * BSIZE"
  proof -
    have "off div BSIZE * BSIZE + off mod BSIZE = off" by simp
    moreover have "off mod BSIZE < BSIZE" by (simp add: BSIZE_def)
    moreover have "(off div BSIZE + 1) * BSIZE = off div BSIZE * BSIZE + BSIZE" by simp
    ultimately show ?thesis by linarith
  qed
  also have "\<dots> \<le> MAXFILE * BSIZE" using a by (intro mult_le_mono1) simp
  finally show ?thesis .
qed

lemma blocks_below_size: "bn * BSIZE < sz \<longleftrightarrow> bn < (sz + (BSIZE - 1)) div BSIZE"
  unfolding BSIZE_def by (simp add: less_eq_div_iff_mult_less_eq) arith

lemma readi_loop_result:
  "readi_loop tot n off dst ip s = Inr (dst', ip', s') \<Longrightarrow>
     length dst' = length dst + (n - tot) \<and> (tot < n \<longrightarrow> off + (n - tot) \<le> MAXFILE * BSIZE)"
proof (induction tot n off dst ip s rule: readi_loop.induct)
  case (1 tot n off dst ip s)
  show ?case
  proof (cases "tot < n")
    case False
    with "1.prems" show ?thesis by (subst (asm) readi_loop.simps) auto
  next
    case True
    let ?m = "min (n - tot) (BSIZE - off mod BSIZE)"
    from "1.prems" True obtain addr ip1 s1 where
      bm: "bmap ip (off div BSIZE) s = Inr (addr, ip1, s1)" and
      rec: "readi_loop (tot + ?m) n (off + ?m)
              (dst @ map (\<lambda>i. blocks s1 addr (off mod BSIZE + i)) [0..<?m]) ip1 s1 = Inr (dst', ip', s')"
      by (subst (asm) readi_loop.simps) (auto simp: Let_def split: sum.splits)
    note ih = "1.IH"[OF True bm refl refl refl rec]
    have r: "off div BSIZE < MAXFILE" by (rule bmap_in_range[OF bm])
    have ce: "off + (BSIZE - off mod BSIZE) \<le> MAXFILE * BSIZE" by (rule chunk_end[OF r])
    have len: "length dst' = length dst + (n - tot)" using ih True by auto
    have bound: "off + (n - tot) \<le> MAXFILE * BSIZE"
    proof (cases "tot + ?m < n")
      case True
      with ih have "off + ?m + (n - (tot + ?m)) \<le> MAXFILE * BSIZE" by simp
      then show ?thesis using \<open>tot < n\<close> by simp
    next
      case False
      then have "n - tot \<le> BSIZE - off mod BSIZE" using \<open>tot < n\<close> by (simp add: min_def split: if_splits)
      with ce show ?thesis by linarith
    qed
    from len bound show ?thesis by blast
  qed
qed

text \<open>
  Claim C5. For an inode that is not a device, \<^verbatim>\<open>readi(ip, dst, off, n)\<close> returns \<open>-1\<close>
  exactly when \<open>off > size\<close> or \<open>off + n\<close> overflows (the arguments and the size being
  \<^verbatim>\<open>uint\<close>s). Otherwise \<open>n\<close> is clamped to \<open>size - off\<close>: a call that returns gives
  that count, which is not \<open>-1\<close>, and has stored that many bytes; and on a file with
  no holes the call returns, the bytes are those of the file from \<open>off\<close> on, each taken
  at its offset in the block that holds it, and nothing changes. A call can also end
  in a panic of \<^verbatim>\<open>bmap\<close> or \<^verbatim>\<open>balloc\<close>.
\<close>

theorem readi_contract:
  assumes "i_type ip \<noteq> T_DEV" and "n < 2 ^ 32" and "i_size ip < 2 ^ 32"
  shows "(off > i_size ip \<or> off + n \<ge> 2 ^ 32 \<longrightarrow> readi ip off n s = Inr (- 1, [], ip, s))
       \<and> (off \<le> i_size ip \<and> off + n < 2 ^ 32 \<longrightarrow>
            (\<forall>r dst ip' s'. readi ip off n s = Inr (r, dst, ip', s') \<longrightarrow>
                r = int (min n (i_size ip - off)) \<and> r \<noteq> - 1
                \<and> length dst = min n (i_size ip - off))
            \<and> (no_holes ip s \<longrightarrow>
                readi ip off n s =
                  Inr (int (min n (i_size ip - off)),
                       map (fbyte ip s) [off..<off + min n (i_size ip - off)], ip, s)))"
proof (intro conjI impI)
  assume rej: "off > i_size ip \<or> off + n \<ge> 2 ^ 32"
  show "readi ip off n s = Inr (- 1, [], ip, s)"
  proof (cases "off > i_size ip")
    case True
    then show ?thesis using assms(1) by (simp add: readi_def)
  next
    case False
    with rej have ov: "off + n \<ge> 2 ^ 32" by simp
    from False assms(3) have o: "off < 2 ^ 32" by simp
    have "(off + n) mod 2 ^ 32 = off + n - 2 ^ 32"
      using ov o assms(2) by (simp add: mod_if)
    then have "(off + n) mod 2 ^ 32 < off" using assms(2) ov by simp
    then show ?thesis using assms(1) by (simp add: readi_def)
  qed
next
  assume ok: "off \<le> i_size ip \<and> off + n < 2 ^ 32"
  let ?n = "min n (i_size ip - off)"
  have md: "(off + n) mod 2 ^ 32 = off + n" using ok by simp
  have cl: "(if (off + n) mod 2 ^ 32 > i_size ip then i_size ip - off else n) = ?n"
    using ok unfolding md by (auto simp: min_def)
  have rd: "readi ip off n s =
      (case readi_loop 0 ?n off [] ip s of Inl e \<Rightarrow> Inl e
       | Inr (dst, ip', s') \<Rightarrow> Inr (as_int ?n, dst, ip', s'))"
    using assms(1) ok unfolding readi_def Let_def cl by (simp add: md)
  have small: "?n < 2 ^ 31 \<Longrightarrow> as_int ?n = int ?n" by (simp add: as_int_def)
  show "\<forall>r dst ip' s'. readi ip off n s = Inr (r, dst, ip', s') \<longrightarrow>
          r = int ?n \<and> r \<noteq> - 1 \<and> length dst = ?n"
  proof (intro allI impI)
    fix r dst ip' s' assume a: "readi ip off n s = Inr (r, dst, ip', s')"
    then have lp: "readi_loop 0 ?n off [] ip s = Inr (dst, ip', s')" and r: "r = as_int ?n"
      unfolding rd by (auto split: sum.splits)
    from readi_loop_result[OF lp] have len: "length dst = ?n"
      and b: "0 < ?n \<longrightarrow> off + ?n \<le> MAXFILE * BSIZE" by auto
    have "?n < 2 ^ 31"
    proof (cases "0 < ?n")
      case True
      with b have "?n \<le> MAXFILE * BSIZE" by linarith
      then show ?thesis by (simp add: MAXFILE_def BSIZE_def)
    next
      case False 
      then have "?n = 0" by (auto simp: min_def)
      then show ?thesis by (simp only:) simp
    qed
    with r len show "r = int ?n \<and> r \<noteq> - 1 \<and> length dst = ?n" by (simp add: small)
  qed
  show "readi ip off n s = Inr (int ?n, map (fbyte ip s) [off..<off + ?n], ip, s)" if nh: "no_holes ip s"
  proof -
    have mp: "\<forall>bn. off div BSIZE \<le> bn \<and> bn * BSIZE < off + (?n - 0) \<longrightarrow> mapped ip s bn"
    proof (intro allI impI)
      fix bn assume a: "off div BSIZE \<le> bn \<and> bn * BSIZE < off + (?n - 0)"
      from ok have o1: "off \<le> i_size ip" by simp
      have "off + ?n \<le> i_size ip" using o1 by linarith
      with a have "bn * BSIZE < i_size ip" by simp
      then have "bn < (i_size ip + (BSIZE - 1)) div BSIZE" by (simp add: blocks_below_size)
      with nh show "mapped ip s bn" by (simp add: no_holes_def)
    qed
    have lp: "readi_loop 0 ?n off [] ip s = Inr (map (fbyte ip s) [off..<off + ?n], ip, s)"
      using readi_loop_mapped[OF mp, of "[]"] by simp
    have "?n < 2 ^ 31"
    proof (cases "0 < ?n")
      case True
      from readi_loop_result[OF lp] True have "off + ?n \<le> MAXFILE * BSIZE" by simp
      then have "?n \<le> MAXFILE * BSIZE" by linarith
      then show ?thesis by (simp add: MAXFILE_def BSIZE_def)
    next
      case False 
      then have "?n = 0" by (auto simp: min_def)
      then show ?thesis by (simp only:) simp
    qed
    then show ?thesis unfolding rd lp by (simp add: small)
  qed
qed


theorem readi_contract_witness:
  "i_type ex_file \<noteq> T_DEV \<and> (4::nat) < 2 ^ 32 \<and> i_size ex_file < 2 ^ 32
   \<and> 510 \<le> i_size ex_file \<and> 510 + 4 < (2::nat) ^ 32 \<and> no_holes ex_file ex_disk
   \<and> readi ex_file 510 4 ex_disk = Inr (4, ''aabb'', ex_file, ex_disk)"
proof -
  have h: "i_type ex_file \<noteq> T_DEV" "(4::nat) < 2 ^ 32" "i_size ex_file < 2 ^ 32"
    by (simp_all add: ex_file_def T_DEV_def)
  have ok: "510 \<le> i_size ex_file \<and> 510 + 4 < (2::nat) ^ 32" by (simp add: ex_file_def)
  have "\<And>bn. bn < (2::nat) \<Longrightarrow> bn = 0 \<or> bn = 1" by arith
  then have nh: "no_holes ex_file ex_disk"
    by (auto simp: no_holes_def ex_file_def BSIZE_def mapped_def blk_of_def MAXFILE_def NDIRECT_def)
  have b: "map (fbyte ex_file ex_disk) [510..<514] = ''aabb''"
    by (simp add: upt_rec fbyte_def blk_of_def ex_file_def ex_disk_def BSIZE_def NDIRECT_def)
  from readi_contract[OF h, of 510 ex_disk] ok nh
  have "readi ex_file 510 4 ex_disk =
          Inr (int (min 4 (i_size ex_file - 510)),
               map (fbyte ex_file ex_disk) [510..<510 + min 4 (i_size ex_file - 510)],
               ex_file, ex_disk)"
    by blast
  moreover have "min 4 (i_size ex_file - 510) = 4" by (simp add: ex_file_def)
  ultimately have "readi ex_file 510 4 ex_disk = Inr (4, ''aabb'', ex_file, ex_disk)"
    using b by simp
  with h ok nh show ?thesis by blast
qed

subsection \<open>balloc and the integers of an indirect block\<close>

lemma balloc_inner_Some:
  "balloc_inner bm b bi = Some r \<Longrightarrow> \<not> bm r \<and> b + bi \<le> r \<and> r < b + BPB"
proof (induction bm b bi rule: balloc_inner.induct)
  case (1 bm b bi)
  show ?case
  proof (cases "bi < BPB")
    case False
    with "1.prems" show ?thesis by (subst (asm) balloc_inner.simps) simp
  next
    case True
    show ?thesis
    proof (cases "bm (b + bi)")
      case False
      with True "1.prems" have "r = b + bi" by (subst (asm) balloc_inner.simps) simp
      with True False show ?thesis by simp
    next
      case used: True
      with True "1.prems" have "balloc_inner bm b (bi + 1) = Some r"
        by (subst (asm) balloc_inner.simps) simp
      from "1.IH"[OF True _ this] used show ?thesis by simp
    qed
  qed
qed

lemma balloc_outer_Some:
  "balloc_outer bm sz b = Some r \<Longrightarrow> \<not> bm r \<and> r < sz + BPB"
proof (induction bm sz b rule: balloc_outer.induct)
  case (1 bm sz b)
  show ?case
  proof (cases "b < sz")
    case False
    with "1.prems" show ?thesis by (subst (asm) balloc_outer.simps) simp
  next
    case True
    show ?thesis
    proof (cases "balloc_inner bm b 0")
      case None
      with True "1.prems" have "balloc_outer bm sz (b + BPB) = Some r"
        by (subst (asm) balloc_outer.simps) simp
      from "1.IH"[OF True None this] show ?thesis .
    next
      case (Some r')
      with True "1.prems" have "r' = r" by (subst (asm) balloc_outer.simps) simp
      with balloc_inner_Some[OF Some] True show ?thesis by simp
    qed
  qed
qed

lemma balloc_Inr:
  "balloc s = Inr (b, s') \<Longrightarrow>
     \<not> bitmap s b \<and> b < sb_size s + BPB \<and> s' = s\<lparr>bitmap := (bitmap s)(b := True)\<rparr>"
  by (auto simp: balloc_def panic_def split: option.splits dest: balloc_outer_Some)

lemma of_char_lt: "of_char (c::char) < (256::nat)"
  by (metis of_char_mod_256 mod_less_divisor zero_less_numeral)

lemma rd_wr_uint_same: "v < 2 ^ 32 \<Longrightarrow> rd_uint (wr_uint a j v) j = v"
proof -
  assume v: "v < 2 ^ 32"
  have "rd_uint (wr_uint a j v) j =
        v mod 256 + 256 * (v div 256 mod 256) + 65536 * (v div 65536 mod 256)
        + 16777216 * (v div 16777216 mod 256)"
    by (simp add: rd_uint_def wr_uint_def)
  also have "\<dots> = v"
  proof -
    have d1: "v div 256 div 256 = v div 65536" by (simp add: div_mult2_eq[symmetric])
    have d2: "v div 65536 div 256 = v div 16777216" by (simp add: div_mult2_eq[symmetric])
    have a: "v = v mod 256 + 256 * (v div 256)" by simp
    have b: "v div 256 = v div 256 mod 256 + 256 * (v div 65536)"
      using div_mult_mod_eq[of "v div 256" 256] unfolding d1 by simp
    have c: "v div 65536 = v div 65536 mod 256 + 256 * (v div 16777216)"
      using div_mult_mod_eq[of "v div 65536" 256] unfolding d2 by simp
    have "v div 16777216 < 256" using v by (simp add: less_mult_imp_div_less)
    then have e: "v div 16777216 mod 256 = v div 16777216" by simp
    show ?thesis unfolding e using a b c by linarith
  qed
  finally show ?thesis .
qed

lemma wr_uint_other: "i div 4 \<noteq> j \<Longrightarrow> wr_uint a j v i = a i"
proof -
  assume "i div 4 \<noteq> j"
  then have "i \<noteq> 4 * j" "i \<noteq> 4 * j + 1" "i \<noteq> 4 * j + 2" "i \<noteq> 4 * j + 3"
    by auto
  then show ?thesis by (simp add: wr_uint_def)
qed

lemma rd_wr_uint_other: "j' \<noteq> j \<Longrightarrow> rd_uint (wr_uint a j v) j' = rd_uint a j'"
proof -
  assume n: "j' \<noteq> j"
  have "(4 * j') div 4 = j'" "(4 * j' + 1) div 4 = j'" "(4 * j' + 2) div 4 = j'"
    "(4 * j' + 3) div 4 = j'" by simp_all
  with n show ?thesis
    by (simp add: rd_uint_def wr_uint_other)
qed

lemma rd_uint_zero: "(\<forall>i<BSIZE. a i = NUL) \<Longrightarrow> j < NINDIRECT \<Longrightarrow> rd_uint a j = 0"
  by (simp add: rd_uint_def BSIZE_def NINDIRECT_def NUL_def)

subsection \<open>Files and the disk: what bmap and writei preserve\<close>

lemma blk_of_bitmap [simp]: "blk_of ip (s\<lparr>bitmap := x\<rparr>) = blk_of ip s"
  by (intro ext) (simp add: blk_of_def)

lemma blk_of_direct_upd:
  "bn < NDIRECT \<Longrightarrow>
   blk_of (ip\<lparr>i_addrs := (i_addrs ip)(bn := b)\<rparr>) s bn' = (if bn' = bn then b else blk_of ip s bn')"
  by (auto simp: blk_of_def)

lemma blk_of_ind_entry:
  assumes "i_addrs ip NDIRECT = ind" "ind \<noteq> 0" "b < 2 ^ 32"
  shows "blk_of ip (s\<lparr>blocks := (blocks s)(ind := wr_uint (blocks s ind) j b)\<rparr>) bn'
         = (if bn' = NDIRECT + j then b else blk_of ip s bn')"
proof (cases "bn' < NDIRECT")
  case True
  then show ?thesis by (simp add: blk_of_def)
next
  case False
  then have "bn' = NDIRECT + j \<longleftrightarrow> bn' - NDIRECT = j" by auto
  with False assms show ?thesis
    by (simp add: blk_of_def rd_wr_uint_same rd_wr_uint_other)
qed

lemma blk_of_new_ind:
  assumes "i_addrs ip NDIRECT = 0" "\<forall>i<BSIZE. blocks s ind i = NUL" "bn' < MAXFILE"
  shows "blk_of (ip\<lparr>i_addrs := (i_addrs ip)(NDIRECT := ind)\<rparr>) s bn' = blk_of ip s bn'"
proof (cases "bn' < NDIRECT")
  case True
  then show ?thesis by (simp add: blk_of_def)
next
  case False
  with assms(3) have "bn' - NDIRECT < NINDIRECT"
    by (simp add: MAXFILE_def NDIRECT_def NINDIRECT_def)
  with False assms(1,2) show ?thesis
    by (simp add: blk_of_def rd_uint_zero)
qed

lemma wf_fileD:
  assumes "wf_file ip s"
  shows "bitmap s 0" "sb_size s + BPB \<le> 2 ^ 32"
    "\<And>b i. \<not> bitmap s b \<Longrightarrow> i < BSIZE \<Longrightarrow> blocks s b i = NUL"
    "i_addrs ip NDIRECT \<noteq> 0 \<Longrightarrow> bitmap s (i_addrs ip NDIRECT)"
    "\<And>bn. bn < MAXFILE \<Longrightarrow> blk_of ip s bn \<noteq> 0 \<Longrightarrow> bitmap s (blk_of ip s bn)"
    "\<And>bn. bn < MAXFILE \<Longrightarrow> blk_of ip s bn \<noteq> 0 \<Longrightarrow> blk_of ip s bn \<noteq> i_addrs ip NDIRECT"
    "\<And>bn bn'. bn < MAXFILE \<Longrightarrow> bn' < MAXFILE \<Longrightarrow> blk_of ip s bn \<noteq> 0 \<Longrightarrow>
        blk_of ip s bn = blk_of ip s bn' \<Longrightarrow> bn = bn'"
  using assms unfolding wf_file_def by blast+

lemma wf_fileI:
  assumes "bitmap s 0" "sb_size s + BPB \<le> 2 ^ 32"
    "\<And>b i. \<not> bitmap s b \<Longrightarrow> i < BSIZE \<Longrightarrow> blocks s b i = NUL"
    "i_addrs ip NDIRECT \<noteq> 0 \<Longrightarrow> bitmap s (i_addrs ip NDIRECT)"
    "\<And>bn. bn < MAXFILE \<Longrightarrow> blk_of ip s bn \<noteq> 0 \<Longrightarrow> bitmap s (blk_of ip s bn)"
    "\<And>bn. bn < MAXFILE \<Longrightarrow> blk_of ip s bn \<noteq> 0 \<Longrightarrow> blk_of ip s bn \<noteq> i_addrs ip NDIRECT"
    "\<And>bn bn'. bn < MAXFILE \<Longrightarrow> bn' < MAXFILE \<Longrightarrow> blk_of ip s bn \<noteq> 0 \<Longrightarrow>
        blk_of ip s bn = blk_of ip s bn' \<Longrightarrow> bn = bn'"
  shows "wf_file ip s"
  unfolding wf_file_def using assms by blast

lemma wf_fresh:
  assumes wf: "wf_file ip s" and fr: "\<not> bitmap s b"
  shows "b \<noteq> 0" "b \<noteq> i_addrs ip NDIRECT" "\<And>bn. bn < MAXFILE \<Longrightarrow> blk_of ip s bn \<noteq> b"
proof -
  show z: "b \<noteq> 0" using wf_fileD(1)[OF wf] fr by (cases "b = 0") auto
  show "b \<noteq> i_addrs ip NDIRECT" using wf_fileD(4)[OF wf] fr z by auto
  fix bn assume "bn < MAXFILE"
  then show "blk_of ip s bn \<noteq> b" using wf_fileD(5)[OF wf, of bn] fr z by auto
qed

text \<open>A data block is allocated for a direct entry.\<close>

lemma wf_alloc_direct:
  assumes wf: "wf_file ip s" and fr: "\<not> bitmap s b" and bn: "bn < NDIRECT" and z: "i_addrs ip bn = 0"
  shows "wf_file (ip\<lparr>i_addrs := (i_addrs ip)(bn := b)\<rparr>) (s\<lparr>bitmap := (bitmap s)(b := True)\<rparr>)"
    (is "wf_file ?ip ?s")
proof -
  note f = wf_fresh[OF wf fr]
  note d = wf_fileD[OF wf]
  have nd: "i_addrs ?ip NDIRECT = i_addrs ip NDIRECT" using bn by simp
  have bo: "\<And>bn'. blk_of ?ip s bn' = (if bn' = bn then b else blk_of ip s bn')"
    using bn by (simp add: blk_of_direct_upd)
  show ?thesis
  proof (rule wf_fileI)
    show "bitmap ?s 0" using d(1) by simp
    show "sb_size ?s + BPB \<le> 2 ^ 32" using d(2) by simp
    show "\<And>c i. \<not> bitmap ?s c \<Longrightarrow> i < BSIZE \<Longrightarrow> blocks ?s c i = NUL"
      using d(3) by (simp split: if_splits)
    show "i_addrs ?ip NDIRECT \<noteq> 0 \<Longrightarrow> bitmap ?s (i_addrs ?ip NDIRECT)"
      unfolding nd using d(4) by simp
    show "\<And>bn'. bn' < MAXFILE \<Longrightarrow> blk_of ?ip ?s bn' \<noteq> 0 \<Longrightarrow> bitmap ?s (blk_of ?ip ?s bn')"
      using d(5) by (auto simp: bo split: if_splits)
    show "\<And>bn'. bn' < MAXFILE \<Longrightarrow> blk_of ?ip ?s bn' \<noteq> 0 \<Longrightarrow>
            blk_of ?ip ?s bn' \<noteq> i_addrs ?ip NDIRECT"
      unfolding nd using d(6) f(2) by (auto simp: bo split: if_splits)
    show "\<And>bn1 bn2. bn1 < MAXFILE \<Longrightarrow> bn2 < MAXFILE \<Longrightarrow> blk_of ?ip ?s bn1 \<noteq> 0 \<Longrightarrow>
            blk_of ?ip ?s bn1 = blk_of ?ip ?s bn2 \<Longrightarrow> bn1 = bn2"
      using d(7) f(3) by (auto simp: bo split: if_splits)
  qed
qed

text \<open>The indirect block is allocated.\<close>

lemma wf_alloc_ind:
  assumes wf: "wf_file ip s" and fr: "\<not> bitmap s b" and z: "i_addrs ip NDIRECT = 0"
  shows "wf_file (ip\<lparr>i_addrs := (i_addrs ip)(NDIRECT := b)\<rparr>) (s\<lparr>bitmap := (bitmap s)(b := True)\<rparr>)"
    (is "wf_file ?ip ?s")
proof -
  note f = wf_fresh[OF wf fr]
  note d = wf_fileD[OF wf]
  have zero: "\<forall>i<BSIZE. blocks s b i = NUL" using d(3)[OF fr] by simp
  have bo: "\<And>bn'. bn' < MAXFILE \<Longrightarrow> blk_of ?ip s bn' = blk_of ip s bn'"
    using blk_of_new_ind[OF z zero] by simp
  have nd: "i_addrs ?ip NDIRECT = b" by simp
  show ?thesis
  proof (rule wf_fileI)
    show "bitmap ?s 0" using d(1) by simp
    show "sb_size ?s + BPB \<le> 2 ^ 32" using d(2) by simp
    show "\<And>c i. \<not> bitmap ?s c \<Longrightarrow> i < BSIZE \<Longrightarrow> blocks ?s c i = NUL"
      using d(3) by (simp split: if_splits)
    show "i_addrs ?ip NDIRECT \<noteq> 0 \<Longrightarrow> bitmap ?s (i_addrs ?ip NDIRECT)"
      by simp
    show "\<And>bn'. bn' < MAXFILE \<Longrightarrow> blk_of ?ip ?s bn' \<noteq> 0 \<Longrightarrow> bitmap ?s (blk_of ?ip ?s bn')"
      using d(5) by (auto simp: bo)
    show "\<And>bn'. bn' < MAXFILE \<Longrightarrow> blk_of ?ip ?s bn' \<noteq> 0 \<Longrightarrow>
            blk_of ?ip ?s bn' \<noteq> i_addrs ?ip NDIRECT"
      unfolding nd using f(3) by (auto simp: bo)
    show "\<And>bn1 bn2. bn1 < MAXFILE \<Longrightarrow> bn2 < MAXFILE \<Longrightarrow> blk_of ?ip ?s bn1 \<noteq> 0 \<Longrightarrow>
            blk_of ?ip ?s bn1 = blk_of ?ip ?s bn2 \<Longrightarrow> bn1 = bn2"
      using d(7) by (auto simp: bo)
  qed
qed

lemma wf_alloc_entry:
  assumes wf: "wf_file ip s" and fr: "\<not> bitmap s b" and nz: "i_addrs ip NDIRECT \<noteq> 0"
    and j: "j < NINDIRECT" and z: "rd_uint (blocks s (i_addrs ip NDIRECT)) j = 0"
    and lt: "b < 2 ^ 32"
  shows "wf_file ip (s\<lparr>bitmap := (bitmap s)(b := True),
                       blocks := (blocks s)(i_addrs ip NDIRECT :=
                                    wr_uint (blocks s (i_addrs ip NDIRECT)) j b)\<rparr>)"
    (is "wf_file ip ?s")
proof -
  note f = wf_fresh[OF wf fr]
  note d = wf_fileD[OF wf]
  let ?t = "s\<lparr>blocks := (blocks s)(i_addrs ip NDIRECT :=
                                    wr_uint (blocks s (i_addrs ip NDIRECT)) j b)\<rparr>"
  have s0: "blk_of ip ?s bn' = blk_of ip ?t bn'" for bn' by (simp add: blk_of_def)
  have bo0: "blk_of ip ?t bn' = (if bn' = NDIRECT + j then b else blk_of ip s bn')" for bn'
    by (rule blk_of_ind_entry[OF refl nz lt])
  have bo: "blk_of ip ?s bn' = (if bn' = NDIRECT + j then b else blk_of ip s bn')" for bn'
    using s0[of bn'] bo0[of bn'] by (rule trans)
  have used: "bitmap s (i_addrs ip NDIRECT)" using d(4) nz by simp
  show ?thesis
  proof (rule wf_fileI)
    show "bitmap ?s 0" using d(1) by simp
    show "sb_size ?s + BPB \<le> 2 ^ 32" using d(2) by simp
    show "blocks ?s c i = NUL" if "\<not> bitmap ?s c" "i < BSIZE" for c i
    proof -
      from that(1) have nb: "\<not> bitmap s c" by (simp split: if_splits)
      with used have "c \<noteq> i_addrs ip NDIRECT" by auto
      then have "blocks ?s c = blocks s c" by simp
      with d(3)[OF nb that(2)] show ?thesis by simp
    qed
    show "i_addrs ip NDIRECT \<noteq> 0 \<Longrightarrow> bitmap ?s (i_addrs ip NDIRECT)"
      using used by simp
    show "bitmap ?s (blk_of ip ?s bn')" if "bn' < MAXFILE" "blk_of ip ?s bn' \<noteq> 0" for bn'
      using that d(5)[of bn'] by (auto simp: bo split: if_splits)
    show "blk_of ip ?s bn' \<noteq> i_addrs ip NDIRECT" if "bn' < MAXFILE" "blk_of ip ?s bn' \<noteq> 0" for bn'
      using that d(6)[of bn'] f(2) by (auto simp: bo split: if_splits)
    show "bn1 = bn2" if "bn1 < MAXFILE" "bn2 < MAXFILE" "blk_of ip ?s bn1 \<noteq> 0"
            "blk_of ip ?s bn1 = blk_of ip ?s bn2" for bn1 bn2
      using that d(7)[of bn1 bn2] f(3)[of bn1] f(3)[of bn2] by (auto simp: bo split: if_splits)
  qed
qed

lemma balloc_lt: "wf_file ip s \<Longrightarrow> balloc s = Inr (b, s') \<Longrightarrow> b < 2 ^ 32"
proof -
  assume wf: "wf_file ip s" and b: "balloc s = Inr (b, s')"
  from balloc_Inr[OF b] have "b < sb_size s + BPB" by simp
  with wf_fileD(2)[OF wf] show ?thesis by simp
qed

lemma blk_of_blocks: "blocks s1 = blocks s2 \<Longrightarrow> blk_of ip s1 bn = blk_of ip s2 bn"
  by (simp add: blk_of_def)

lemma bmap_wf:
  assumes wf: "wf_file ip s" and bm: "bmap ip bn s = Inr (addr, ip', s')"
  shows "wf_file ip' s' \<and> addr \<noteq> 0 \<and> blk_of ip' s' bn = addr
     \<and> (\<forall>bn'<MAXFILE. bn' \<noteq> bn \<longrightarrow> blk_of ip' s' bn' = blk_of ip s bn')
     \<and> (\<forall>b. b \<noteq> i_addrs ip' NDIRECT \<longrightarrow> blocks s' b = blocks s b)
     \<and> (\<forall>b. bitmap s b \<longrightarrow> bitmap s' b)
     \<and> ip' = ip\<lparr>i_addrs := i_addrs ip'\<rparr>
     \<and> s' = s\<lparr>bitmap := bitmap s', blocks := blocks s'\<rparr>"
proof -
  have rng: "bn < MAXFILE" by (rule bmap_in_range[OF bm])
  show ?thesis
  proof (cases "mapped ip s bn")
    case True
    from bmap_mapped[OF True] bm have "addr = blk_of ip s bn" "ip' = ip" "s' = s" by simp_all
    with wf True show ?thesis by (simp add: mapped_def)
  next
    case False
    with rng have unm: "blk_of ip s bn = 0" by (simp add: mapped_def)
    show ?thesis
    proof (cases "bn < NDIRECT")
      case True
      with unm have z: "i_addrs ip bn = 0" by (simp add: blk_of_def)
      from bm True z obtain sb where
        ba: "balloc s = Inr (addr, sb)" and ip': "ip' = ip\<lparr>i_addrs := (i_addrs ip)(bn := addr)\<rparr>"
        and s'0: "s' = sb"
        by (auto simp: bmap_def split: sum.splits)
      from balloc_Inr[OF ba] s'0 have fr: "\<not> bitmap s addr"
        and s': "s' = s\<lparr>bitmap := (bitmap s)(addr := True)\<rparr>" by simp_all
      note f = wf_fresh[OF wf fr]
      have w: "wf_file ip' s'" unfolding ip' s' by (rule wf_alloc_direct[OF wf fr True z])
      have bo: "\<And>bn'. blk_of ip' s' bn' = (if bn' = bn then addr else blk_of ip s bn')"
        unfolding ip' s' using True by (simp add: blk_of_direct_upd)
      show ?thesis using w f(1) by (simp add: bo) (simp add: ip' s')
    next
      case nd: False
      let ?j = "bn - NDIRECT"
      from nd rng have j: "?j < NINDIRECT" by (simp add: MAXFILE_def NDIRECT_def NINDIRECT_def)
      from nd have bnj: "bn = NDIRECT + ?j" by simp
      show ?thesis
      proof (cases "i_addrs ip NDIRECT = 0")
        case nz: False
        let ?ind = "i_addrs ip NDIRECT"
        from unm nd nz have z: "rd_uint (blocks s ?ind) ?j = 0" by (simp add: blk_of_def)
        from bm nd j nz z obtain sb where
          ba: "balloc s = Inr (addr, sb)" and ip': "ip' = ip"
          and s'0: "s' = sb\<lparr>blocks := (blocks sb)(?ind := wr_uint (blocks s ?ind) ?j addr)\<rparr>"
          by (auto simp: bmap_def Let_def split: sum.splits)
        from balloc_Inr[OF ba] s'0 have fr: "\<not> bitmap s addr"
          and s': "s' = s\<lparr>bitmap := (bitmap s)(addr := True),
                        blocks := (blocks s)(?ind := wr_uint (blocks s ?ind) ?j addr)\<rparr>"
          by simp_all
        note f = wf_fresh[OF wf fr]
        have lt: "addr < 2 ^ 32" by (rule balloc_lt[OF wf ba])
        have w: "wf_file ip' s'" unfolding ip' s' by (rule wf_alloc_entry[OF wf fr nz j z lt])
        have bo0: "blk_of ip (s\<lparr>blocks := (blocks s)(?ind := wr_uint (blocks s ?ind) ?j addr)\<rparr>) bn'
              = (if bn' = bn then addr else blk_of ip s bn')" for bn'
          using blk_of_ind_entry[OF refl nz lt, of s ?j bn'] bnj by simp
        have bo: "blk_of ip' s' bn' = (if bn' = bn then addr else blk_of ip s bn')" for bn'
          unfolding bo0[symmetric] ip' by (rule blk_of_blocks) (simp add: s')
        show ?thesis using w f(1) by (simp add: bo) (simp add: ip' s')
      next
        case zi: True
        from bm nd j zi obtain ind s1 where
          bi: "balloc s = Inr (ind, s1)"
          and rest: "(let a = blocks s1 ind in
               if rd_uint a ?j = 0 then
                 (case balloc s1 of Inl e \<Rightarrow> Inl e
                  | Inr (addr, s2) \<Rightarrow>
                      Inr (addr, ip\<lparr>i_addrs := (i_addrs ip)(NDIRECT := ind)\<rparr>,
                           s2\<lparr>blocks := (blocks s2)(ind := wr_uint a ?j addr)\<rparr>))
               else Inr (rd_uint a ?j, ip\<lparr>i_addrs := (i_addrs ip)(NDIRECT := ind)\<rparr>, s1))
             = Inr (addr, ip', s')"
          by (auto simp: bmap_def Let_def split: sum.splits)
        let ?ip1 = "ip\<lparr>i_addrs := (i_addrs ip)(NDIRECT := ind)\<rparr>"
        from balloc_Inr[OF bi] have fri: "\<not> bitmap s ind"
          and s1: "s1 = s\<lparr>bitmap := (bitmap s)(ind := True)\<rparr>" by simp_all
        note fi = wf_fresh[OF wf fri]
        have w1: "wf_file ?ip1 s1" unfolding s1 by (rule wf_alloc_ind[OF wf fri zi])
        have zero: "\<forall>i<BSIZE. blocks s ind i = NUL" using wf_fileD(3)[OF wf fri] by simp
        have a0: "rd_uint (blocks s1 ind) ?j = 0" unfolding s1 using zero j by (simp add: rd_uint_zero)
        from rest a0 obtain s2 where
          ba: "balloc s1 = Inr (addr, s2)" and ip': "ip' = ?ip1"
          and s'0: "s' = s2\<lparr>blocks := (blocks s2)(ind := wr_uint (blocks s1 ind) ?j addr)\<rparr>"
          by (auto simp: Let_def split: sum.splits)
        from balloc_Inr[OF ba] have fr: "\<not> bitmap s1 addr"
          and s2: "s2 = s1\<lparr>bitmap := (bitmap s1)(addr := True)\<rparr>" by simp_all
        note f = wf_fresh[OF w1 fr]
        have lt: "addr < 2 ^ 32" by (rule balloc_lt[OF w1 ba])
        have ind1: "i_addrs ?ip1 NDIRECT = ind" by simp
        have nz1: "i_addrs ?ip1 NDIRECT \<noteq> 0" using fi(1) by simp
        have z1: "rd_uint (blocks s1 (i_addrs ?ip1 NDIRECT)) ?j = 0" using a0 by simp
        have s': "s' = s1\<lparr>bitmap := (bitmap s1)(addr := True),
                           blocks := (blocks s1)(i_addrs ?ip1 NDIRECT :=
                              wr_uint (blocks s1 (i_addrs ?ip1 NDIRECT)) ?j addr)\<rparr>"
          unfolding s'0 s2 by simp
        have w: "wf_file ip' s'" unfolding ip' s' by (rule wf_alloc_entry[OF w1 fr nz1 j z1 lt])
        have bo0: "blk_of ?ip1 (s1\<lparr>blocks := (blocks s1)(ind := wr_uint (blocks s1 ind) ?j addr)\<rparr>) bn'
              = (if bn' = bn then addr else blk_of ?ip1 s1 bn')" for bn'
          using blk_of_ind_entry[OF ind1 fi(1) lt, of s1 ?j bn'] bnj by simp
        have bo1: "blk_of ip' s' bn' = (if bn' = bn then addr else blk_of ?ip1 s1 bn')" for bn'
          unfolding bo0[symmetric] ip' by (rule blk_of_blocks) (simp add: s')
        have bo2: "\<And>bn'. bn' < MAXFILE \<Longrightarrow> blk_of ?ip1 s1 bn' = blk_of ip s bn'"
          unfolding s1 using blk_of_new_ind[OF zi zero] by simp
        have bl: "\<And>b. b \<noteq> ind \<Longrightarrow> blocks s' b = blocks s b"
          unfolding s' s1 by simp
        have bmp: "\<And>b. bitmap s b \<Longrightarrow> bitmap s' b" unfolding s' s1 by simp
        have e1: "ip' = ip\<lparr>i_addrs := i_addrs ip'\<rparr>" unfolding ip' by simp
        have e2: "s' = s\<lparr>bitmap := bitmap s', blocks := blocks s'\<rparr>" unfolding s' s1 by simp
        have i': "i_addrs ip' NDIRECT = ind" unfolding ip' by simp
        show ?thesis
          using w f(1) bl bmp e1 e2 rng by (simp add: bo1 bo2 i')
      qed
    qed
  qed
qed

lemma bmap_frame:
  assumes wf: "wf_file ip s" and bm: "bmap ip bn s = Inr (addr, ip', s')"
  shows "mapped ip' s' bn"
    and "\<And>bn'. mapped ip s bn' \<Longrightarrow> mapped ip' s' bn' \<and> blk_of ip' s' bn' = blk_of ip s bn'"
    and "\<And>k. mapped ip s (k div BSIZE) \<Longrightarrow> fbyte ip' s' k = fbyte ip s k"
proof -
  note b = bmap_wf[OF wf bm]
  have rng: "bn < MAXFILE" by (rule bmap_in_range[OF bm])
  from b rng show "mapped ip' s' bn" by (simp add: mapped_def)
  have same: "blk_of ip' s' bn' = blk_of ip s bn'" if mp: "mapped ip s bn'" for bn'
  proof (cases "bn' = bn")
    case True
    with mp bmap_mapped[of ip s bn] bm show ?thesis by simp
  next
    case False
    with b mp show ?thesis by (simp add: mapped_def)
  qed
  then show m2: "\<And>bn'. mapped ip s bn' \<Longrightarrow> mapped ip' s' bn' \<and> blk_of ip' s' bn' = blk_of ip s bn'"
    by (simp add: mapped_def)
  fix k assume mp: "mapped ip s (k div BSIZE)"
  from m2[OF mp] have mp': "mapped ip' s' (k div BSIZE)"
    and e: "blk_of ip' s' (k div BSIZE) = blk_of ip s (k div BSIZE)" by simp_all
  from b have w': "wf_file ip' s'" by simp
  from mp' have "blk_of ip' s' (k div BSIZE) \<noteq> i_addrs ip' NDIRECT"
    using wf_fileD(6)[OF w', of "k div BSIZE"] by (simp add: mapped_def)
  with b have "blocks s' (blk_of ip' s' (k div BSIZE)) = blocks s (blk_of ip' s' (k div BSIZE))"
    by blast
  then show "fbyte ip' s' k = fbyte ip s k" by (simp add: fbyte_def e)
qed

lemma data_write:
  fixes d :: "nat \<Rightarrow> byte"
  assumes wf: "wf_file ip s" and mp: "mapped ip s bn"
  defines "s' \<equiv> s\<lparr>blocks := (blocks s)(blk_of ip s bn := d)\<rparr>"
  shows "wf_file ip s'"
    and "\<And>bn'. blk_of ip s' bn' = blk_of ip s bn'"
    and "\<And>k. mapped ip s (k div BSIZE) \<Longrightarrow>
           fbyte ip s' k = (if k div BSIZE = bn then d (k mod BSIZE) else fbyte ip s k)"
proof -
  note w = wf_fileD[OF wf]
  from mp have rng: "bn < MAXFILE" and nz: "blk_of ip s bn \<noteq> 0" by (simp_all add: mapped_def)
  have ni: "blk_of ip s bn \<noteq> i_addrs ip NDIRECT" by (rule w(6)[OF rng nz])
  have used: "bitmap s (blk_of ip s bn)" by (rule w(5)[OF rng nz])
  show bo: "\<And>bn'. blk_of ip s' bn' = blk_of ip s bn'"
    using ni by (simp add: blk_of_def s'_def)
  show "wf_file ip s'"
  proof (rule wf_fileI)
    show "bitmap s' 0" using w(1) by (simp add: s'_def)
    show "sb_size s' + BPB \<le> 2 ^ 32" using w(2) by (simp add: s'_def)
    show "blocks s' c i = NUL" if "\<not> bitmap s' c" "i < BSIZE" for c i
    proof -
      from that(1) have nb: "\<not> bitmap s c" by (simp add: s'_def)
      with used have "c \<noteq> blk_of ip s bn" by auto
      then have "blocks s' c = blocks s c" by (simp add: s'_def)
      with w(3)[OF nb that(2)] show ?thesis by simp
    qed
    show "i_addrs ip NDIRECT \<noteq> 0 \<Longrightarrow> bitmap s' (i_addrs ip NDIRECT)"
      using w(4) by (simp add: s'_def)
    show "\<And>bn'. bn' < MAXFILE \<Longrightarrow> blk_of ip s' bn' \<noteq> 0 \<Longrightarrow> bitmap s' (blk_of ip s' bn')"
      unfolding bo using w(5) by (simp add: s'_def)
    show "\<And>bn'. bn' < MAXFILE \<Longrightarrow> blk_of ip s' bn' \<noteq> 0 \<Longrightarrow> blk_of ip s' bn' \<noteq> i_addrs ip NDIRECT"
      unfolding bo using w(6) by simp
    show "\<And>bn1 bn2. bn1 < MAXFILE \<Longrightarrow> bn2 < MAXFILE \<Longrightarrow> blk_of ip s' bn1 \<noteq> 0 \<Longrightarrow>
            blk_of ip s' bn1 = blk_of ip s' bn2 \<Longrightarrow> bn1 = bn2"
      unfolding bo using w(7) by simp
  qed
  fix k assume mk: "mapped ip s (k div BSIZE)"
  then have rk: "k div BSIZE < MAXFILE" and nk: "blk_of ip s (k div BSIZE) \<noteq> 0"
    by (simp_all add: mapped_def)
  have "blk_of ip s (k div BSIZE) = blk_of ip s bn \<longleftrightarrow> k div BSIZE = bn"
    using w(7)[OF rk rng nk] by auto
  then show "fbyte ip s' k = (if k div BSIZE = bn then d (k mod BSIZE) else fbyte ip s k)"
    by (simp add: fbyte_def bo) (simp add: s'_def)
qed

lemma same_block: "k div BSIZE = off div BSIZE \<Longrightarrow> k mod BSIZE + off = off mod BSIZE + k"
proof -
  assume a: "k div BSIZE = off div BSIZE"
  have "k = k div BSIZE * BSIZE + k mod BSIZE" "off = off div BSIZE * BSIZE + off mod BSIZE"
    by simp_all
  with a show ?thesis by (metis add.assoc add.commute)
qed

lemma writei_loop_wf:
  assumes "wf_file ip s" and "writei_loop tot n off src ip s = Inr (off', ip', s')"
    and "n - tot \<le> length src"
  shows "wf_file ip' s' \<and> off' = off + (n - tot)
     \<and> (\<forall>k. off \<le> k \<and> k < off + (n - tot) \<longrightarrow>
            mapped ip' s' (k div BSIZE) \<and> fbyte ip' s' k = src ! (k - off))
     \<and> (\<forall>bn. mapped ip s bn \<longrightarrow> mapped ip' s' bn)
     \<and> (\<forall>k. mapped ip s (k div BSIZE) \<and> (k < off \<or> off + (n - tot) \<le> k) \<longrightarrow>
            fbyte ip' s' k = fbyte ip s k)
     \<and> ip' = ip\<lparr>i_addrs := i_addrs ip'\<rparr>
     \<and> s' = s\<lparr>bitmap := bitmap s', blocks := blocks s'\<rparr>"
  using assms
proof (induction tot n off src ip s rule: writei_loop.induct)
  case (1 tot n off src ip s)
  note wf = "1.prems"(1) and run = "1.prems"(2) and len = "1.prems"(3)
  show ?case
  proof (cases "tot < n")
    case False
    with run have "off' = off" "ip' = ip" "s' = s" by (subst (asm) writei_loop.simps, simp)+
    with False wf show ?thesis by auto
  next
    case True
    let ?bn = "off div BSIZE"
    let ?o = "off mod BSIZE"
    let ?m = "min (n - tot) (BSIZE - ?o)"
    from run True obtain addr ip1 s1 where
      bm: "bmap ip ?bn s = Inr (addr, ip1, s1)" and
      rec: "writei_loop (tot + ?m) n (off + ?m) (drop ?m src) ip1
              (s1\<lparr>blocks := (blocks s1)(addr := memmove_blk (blocks s1 addr) ?o src ?m)\<rparr>)
            = Inr (off', ip', s')"
      by (subst (asm) writei_loop.simps) (auto simp: Let_def split: sum.splits)
    let ?d = "memmove_blk (blocks s1 addr) ?o src ?m"
    let ?s2 = "s1\<lparr>blocks := (blocks s1)(addr := ?d)\<rparr>"
    note b = bmap_wf[OF wf bm]
    note fr = bmap_frame[OF wf bm]
    from b have wf1: "wf_file ip1 s1" and ad: "blk_of ip1 s1 ?bn = addr" by simp_all
    have s2: "?s2 = s1\<lparr>blocks := (blocks s1)(blk_of ip1 s1 ?bn := ?d)\<rparr>" by (simp add: ad)
    note dw = data_write[OF wf1 fr(1), where d = ?d, folded s2]
    have mp2: "\<And>bn. mapped ip1 ?s2 bn = mapped ip1 s1 bn" by (simp add: mapped_def dw(2))
    have len': "n - (tot + ?m) \<le> length (drop ?m src)" using len by simp
    note ih = "1.IH"[OF True bm refl refl refl dw(1) rec len']
    have mle: "?m \<le> BSIZE - ?o" by simp
    have mpos: "0 < ?m" using True by (simp add: BSIZE_def)
    have rng: "off + ?m + (n - (tot + ?m)) = off + (n - tot)" using True by simp
    have msrc: "?m \<le> length src" using len by simp
    note r1 = ih[THEN conjunct2]
    note r2 = r1[THEN conjunct2]
    note r3 = r2[THEN conjunct2]
    note r4 = r3[THEN conjunct2]
    note r5 = r4[THEN conjunct2]
    note w' = ih[THEN conjunct1]
    note o0 = r1[THEN conjunct1]
    note ih6 = r5[THEN conjunct1]
    note ih7 = r5[THEN conjunct2]
    have ih3: "mapped ip' s' (k div BSIZE) \<and> fbyte ip' s' k = drop ?m src ! (k - (off + ?m))"
      if "off + ?m \<le> k" "k < off + ?m + (n - (tot + ?m))" for k
      using r2[THEN conjunct1, rule_format, OF conjI, OF that] .
    have ih4: "mapped ip' s' bn" if "mapped ip1 ?s2 bn" for bn
      using r3[THEN conjunct1, rule_format, OF that] .
    have ih5: "fbyte ip' s' k = fbyte ip1 ?s2 k"
      if "mapped ip1 ?s2 (k div BSIZE)" "k < off + ?m \<or> off + ?m + (n - (tot + ?m)) \<le> k" for k
      using r4[THEN conjunct1, rule_format, OF conjI, OF that] .
    have o': "off' = off + (n - tot)" using o0 unfolding rng .
    have written: "mapped ip' s' (k div BSIZE) \<and> fbyte ip' s' k = src ! (k - off)"
      if k: "off \<le> k" "k < off + (n - tot)" for k
    proof (cases "off + ?m \<le> k")
      case True
      have "k < off + ?m + (n - (tot + ?m))" using k(2) unfolding rng .
      from ih3[OF True this] have "mapped ip' s' (k div BSIZE)"
        and "fbyte ip' s' k = drop ?m src ! (k - (off + ?m))" by blast+
      moreover have "drop ?m src ! (k - (off + ?m)) = src ! (k - off)"
      proof -
        have "?m + (k - (off + ?m)) = k - off" using True by linarith
        then show ?thesis using msrc by (metis nth_drop)
      qed
      ultimately show ?thesis by simp
    next
      case False
      then have lt: "k - off < ?m" using k by linarith
      then have lt': "k - off < BSIZE - ?o" by linarith
      have ko: "off + (k - off) = k" using k by simp
      have kd: "k div BSIZE = ?bn" using chunk_div[OF lt'] unfolding ko .
      have km: "k mod BSIZE = ?o + (k - off)" using chunk_mod[OF lt'] unfolding ko .
      have m1: "mapped ip1 ?s2 (k div BSIZE)" unfolding kd mp2 by (rule fr(1))
      have m': "mapped ip' s' (k div BSIZE)" by (rule ih4[OF m1])
      have kl: "k < off + ?m" using False by linarith
      have "fbyte ip' s' k = fbyte ip1 ?s2 k" by (rule ih5[OF m1]) (rule disjI1[OF kl])
      also have "\<dots> = ?d (k mod BSIZE)"
        using dw(3)[of k] fr(1) kd by simp
      also have "\<dots> = src ! (k - off)"
        unfolding km using lt by (simp add: memmove_blk_def)
      finally show ?thesis using m' by simp
    qed
    have keep: "mapped ip' s' bn" if "mapped ip s bn" for bn
    proof -
      from fr(2)[OF that] have "mapped ip1 s1 bn" by simp
      then have "mapped ip1 ?s2 bn" by (simp only: mp2)
      then show ?thesis by (rule ih4)
    qed
    have frame: "fbyte ip' s' k = fbyte ip s k"
      if mk: "mapped ip s (k div BSIZE)" and out: "k < off \<or> off + (n - tot) \<le> k" for k
    proof -
      from fr(2)[OF mk] have m1: "mapped ip1 s1 (k div BSIZE)" by simp
      then have m2: "mapped ip1 ?s2 (k div BSIZE)" by (simp only: mp2)
      have out': "k < off + ?m \<or> off + ?m + (n - (tot + ?m)) \<le> k"
        using out unfolding rng by linarith
      have "fbyte ip' s' k = fbyte ip1 ?s2 k" by (rule ih5[OF m2 out'])
      also have "\<dots> = fbyte ip1 s1 k"
      proof (cases "k div BSIZE = ?bn")
        case False
        then show ?thesis using dw(3)[OF m1] by simp
      next
        case same: True
        have mb: "?m \<le> n - tot" by simp
        have outm: "\<not> (?o \<le> k mod BSIZE \<and> k mod BSIZE < ?o + ?m)"
          using same_block[OF same] out mb by linarith
        have "fbyte ip1 ?s2 k = ?d (k mod BSIZE)" using dw(3)[OF m1] same by simp
        also have "\<dots> = blocks s1 addr (k mod BSIZE)"
          using outm by (simp only: memmove_blk_def if_False)
        also have "\<dots> = fbyte ip1 s1 k" by (simp add: fbyte_def same ad)
        finally show ?thesis .
      qed
      also have "\<dots> = fbyte ip s k" by (rule fr(3)[OF mk])
      finally show ?thesis .
    qed
    have e1: "ip' = ip\<lparr>i_addrs := i_addrs ip'\<rparr>"
    proof -
      from b have b1: "ip1 = ip\<lparr>i_addrs := i_addrs ip1\<rparr>" by simp
      have "ip1\<lparr>i_addrs := i_addrs ip'\<rparr> = ip\<lparr>i_addrs := i_addrs ip'\<rparr>"
        by (subst b1) simp
      with ih6 show ?thesis by simp
    qed
    have e2: "s' = s\<lparr>bitmap := bitmap s', blocks := blocks s'\<rparr>"
    proof -
      from b have b2: "s1 = s\<lparr>bitmap := bitmap s1, blocks := blocks s1\<rparr>" by simp
      have "?s2\<lparr>bitmap := bitmap s', blocks := blocks s'\<rparr>
                 = s\<lparr>bitmap := bitmap s', blocks := blocks s'\<rparr>"
        by (subst b2) simp
      with ih7 show ?thesis by simp
    qed
    show ?thesis
    proof (intro conjI allI impI)
      show "wf_file ip' s'" by (rule w')
      show "off' = off + (n - tot)" by (rule o')
      show "ip' = ip\<lparr>i_addrs := i_addrs ip'\<rparr>" by (rule e1)
      show "s' = s\<lparr>bitmap := bitmap s', blocks := blocks s'\<rparr>" by (rule e2)
    next
      fix k assume "off \<le> k \<and> k < off + (n - tot)"
      then show "mapped ip' s' (k div BSIZE)" using written[of k] by simp
    next
      fix k assume "off \<le> k \<and> k < off + (n - tot)"
      then show "fbyte ip' s' k = src ! (k - off)" using written[of k] by simp
    next
      fix bn assume "mapped ip s bn" then show "mapped ip' s' bn" by (rule keep)
    next
      fix k assume "mapped ip s (k div BSIZE) \<and> (k < off \<or> off + (n - tot) \<le> k)"
      then show "fbyte ip' s' k = fbyte ip s k" using frame[of k] by simp
    qed
  qed
qed

subsection \<open>writei\<close>

lemma bmap_fields:
  "bmap ip bn s = Inr (addr, ip', s') \<Longrightarrow>
     ip' = ip\<lparr>i_addrs := i_addrs ip'\<rparr> \<and> s' = s\<lparr>bitmap := bitmap s', blocks := blocks s'\<rparr>"
  by (auto simp: bmap_def Let_def panic_def split: if_splits sum.splits dest!: balloc_Inr)

lemma writei_loop_result:
  "writei_loop tot n off src ip s = Inr (off', ip', s') \<Longrightarrow>
     off' = off + (n - tot) \<and> (tot < n \<longrightarrow> off + (n - tot) \<le> MAXFILE * BSIZE)
     \<and> ip' = ip\<lparr>i_addrs := i_addrs ip'\<rparr>
     \<and> s' = s\<lparr>bitmap := bitmap s', blocks := blocks s'\<rparr>"
proof (induction tot n off src ip s rule: writei_loop.induct)
  case (1 tot n off src ip s)
  show ?case
  proof (cases "tot < n")
    case False
    with "1.prems" have "off' = off" "ip' = ip" "s' = s" by (subst (asm) writei_loop.simps, simp)+
    with False show ?thesis by auto
  next
    case True
    let ?m = "min (n - tot) (BSIZE - off mod BSIZE)"
    from "1.prems" True obtain addr ip1 s1 where
      bm: "bmap ip (off div BSIZE) s = Inr (addr, ip1, s1)" and
      rec: "writei_loop (tot + ?m) n (off + ?m) (drop ?m src) ip1
              (s1\<lparr>blocks := (blocks s1)(addr := memmove_blk (blocks s1 addr) (off mod BSIZE) src ?m)\<rparr>)
            = Inr (off', ip', s')"
      by (subst (asm) writei_loop.simps) (auto simp: Let_def split: sum.splits)
    let ?s2 = "s1\<lparr>blocks := (blocks s1)(addr := memmove_blk (blocks s1 addr) (off mod BSIZE) src ?m)\<rparr>"
    note ih = "1.IH"[OF True bm refl refl refl rec]
    note r1 = ih[THEN conjunct2]
    note r2 = r1[THEN conjunct2]
    note f = bmap_fields[OF bm]
    have rng: "off + ?m + (n - (tot + ?m)) = off + (n - tot)" using True by simp
    have o': "off' = off + (n - tot)" using ih[THEN conjunct1] unfolding rng .
    have r: "off div BSIZE < MAXFILE" by (rule bmap_in_range[OF bm])
    have ce: "off + (BSIZE - off mod BSIZE) \<le> MAXFILE * BSIZE" by (rule chunk_end[OF r])
    have bound: "off + (n - tot) \<le> MAXFILE * BSIZE"
    proof (cases "tot + ?m < n")
      case True
      with r1[THEN conjunct1] have "off + ?m + (n - (tot + ?m)) \<le> MAXFILE * BSIZE" by blast
      then show ?thesis unfolding rng .
    next
      case False
      then have "n - tot \<le> BSIZE - off mod BSIZE" using \<open>tot < n\<close> by (simp add: min_def split: if_splits)
      with ce show ?thesis by linarith
    qed
    have e1: "ip' = ip\<lparr>i_addrs := i_addrs ip'\<rparr>"
    proof -
      from f have b1: "ip1 = ip\<lparr>i_addrs := i_addrs ip1\<rparr>" by simp
      have "ip1\<lparr>i_addrs := i_addrs ip'\<rparr> = ip\<lparr>i_addrs := i_addrs ip'\<rparr>"
        by (subst b1) simp
      with r2[THEN conjunct1] show ?thesis by simp
    qed
    have e2: "s' = s\<lparr>bitmap := bitmap s', blocks := blocks s'\<rparr>"
    proof -
      from f have b2: "s1 = s\<lparr>bitmap := bitmap s1, blocks := blocks s1\<rparr>" by simp
      have "?s2\<lparr>bitmap := bitmap s', blocks := blocks s'\<rparr>
                 = s\<lparr>bitmap := bitmap s', blocks := blocks s'\<rparr>"
        by (subst b2) simp
      with r2[THEN conjunct2] show ?thesis by simp
    qed
    from o' bound e1 e2 show ?thesis by blast
  qed
qed

text \<open>What a call of writei that is not rejected does, in terms of its loop.\<close>

lemma writei_Inr:
  assumes dev: "i_type ip \<noteq> T_DEV" and n: "n < 2 ^ 32" and sz: "i_size ip < 2 ^ 32"
    and ok: "off \<le> i_size ip" "off + n < 2 ^ 32"
    and run: "writei ip src off n s = Inr (r, ip', s')"
  defines "n' \<equiv> (if off + n > MAXFILE * BSIZE then MAXFILE * BSIZE - off else n)"
  shows "r = int n' \<and> (0 < n' \<longrightarrow> off + n' \<le> MAXFILE * BSIZE)
    \<and> (\<exists>ip1 s1. writei_loop 0 n' off src ip s = Inr (off + n', ip1, s1)
          \<and> (if 0 < n' \<and> i_size ip < off + n'
              then ip' = ip1\<lparr>i_size := off + n'\<rparr> \<and> s' = iupdate ip' s1
              else ip' = ip1 \<and> s' = s1))"
proof -
  let ?c = "(if (off + n) mod 2 ^ 32 > MAXFILE * BSIZE
            then (MAXFILE * BSIZE + 2 ^ 32 - off) mod 2 ^ 32 else n)"
  have md: "(off + n) mod 2 ^ 32 = off + n" using ok by simp
  from run dev ok obtain off1 ip1 s1 where
    lp: "writei_loop 0 ?c off src ip s = Inr (off1, ip1, s1)" and
    fin: "(if ?c > 0 \<and> off1 > i_size ip1
           then r = as_int ?c \<and> ip' = ip1\<lparr>i_size := off1\<rparr> \<and> s' = iupdate (ip1\<lparr>i_size := off1\<rparr>) s1
           else r = as_int ?c \<and> ip' = ip1 \<and> s' = s1)"
    unfolding writei_def Let_def md by (auto split: sum.splits if_splits)
  note res = writei_loop_result[OF lp]
  have c: "?c = n'"
  proof (cases "off + n > MAXFILE * BSIZE")
    case False
    then show ?thesis unfolding md by (simp add: n'_def)
  next
    case True
    show ?thesis
    proof (cases "off \<le> MAXFILE * BSIZE")
      case le: True
      then have "(MAXFILE * BSIZE + 2 ^ 32 - off) mod 2 ^ 32 = MAXFILE * BSIZE - off"
        by (simp add: MAXFILE_def BSIZE_def mod_if)
      with True show ?thesis unfolding md by (simp add: n'_def)
    next
      case gt: False
      from ok sz have o32: "off < 2 ^ 32" by simp
      have w: "(MAXFILE * BSIZE + 2 ^ 32 - off) mod 2 ^ 32 = MAXFILE * BSIZE + 2 ^ 32 - off"
        using gt o32 by (simp add: MAXFILE_def BSIZE_def)
      have pos: "0 < MAXFILE * BSIZE + 2 ^ 32 - off" using o32 by simp
      have "?c = MAXFILE * BSIZE + 2 ^ 32 - off" unfolding md using True w by simp
      with res pos have "off + (MAXFILE * BSIZE + 2 ^ 32 - off) \<le> MAXFILE * BSIZE" by simp
      with o32 show ?thesis by simp
    qed
  qed
  from res have o1: "off1 = off + n'" and bd: "0 < n' \<longrightarrow> off + n' \<le> MAXFILE * BSIZE"
    and sz1: "i_size ip1 = i_size ip"
    unfolding c by (simp_all, metis inode.select_convs(11) inode.surjective inode.update_convs(12))
  have small: "n' < 2 ^ 31"
  proof (cases "0 < n'")
    case True
    with bd have "n' \<le> MAXFILE * BSIZE" by linarith
    then show ?thesis by (simp add: MAXFILE_def BSIZE_def)
  next
    case False
    then show ?thesis by simp
  qed
  then have ai: "as_int n' = int n'" by (simp add: as_int_def)
  from fin have r: "r = int n'" unfolding c ai by (simp split: if_splits)
  from fin lp show ?thesis unfolding c o1 sz1 using r bd by (auto split: if_splits)
qed

lemma iupdate_sel [simp]:
  "blocks (iupdate ip s) = blocks s" "bitmap (iupdate ip s) = bitmap s"
  "sb_size (iupdate ip s) = sb_size s"
  by (simp_all add: iupdate_def)

lemma blk_of_size [simp]: "blk_of (ip\<lparr>i_size := x\<rparr>) s = blk_of ip s"
  by (intro ext) (simp add: blk_of_def)

lemma blk_of_iupdate [simp]: "blk_of ip (iupdate ip2 s) = blk_of ip s"
  by (intro ext) (simp add: blk_of_def)

lemma mapped_size [simp]: "mapped (ip\<lparr>i_size := x\<rparr>) s = mapped ip s"
  by (intro ext) (simp add: mapped_def)

lemma mapped_iupdate [simp]: "mapped ip (iupdate ip2 s) = mapped ip s"
  by (intro ext) (simp add: mapped_def)

lemma fbyte_size [simp]: "fbyte (ip\<lparr>i_size := x\<rparr>) s = fbyte ip s"
  by (intro ext) (simp add: fbyte_def)

lemma fbyte_iupdate [simp]: "fbyte ip (iupdate ip2 s) = fbyte ip s"
  by (intro ext) (simp add: fbyte_def)

lemma wf_file_size [simp]: "wf_file (ip\<lparr>i_size := x\<rparr>) s = wf_file ip s"
  by (simp add: wf_file_def)

lemma wf_file_iupdate [simp]: "wf_file ip (iupdate ip2 s) = wf_file ip s"
  by (simp add: wf_file_def)

text \<open>
  What a call of \<^verbatim>\<open>writei\<close> that returns has done, and the two cases where it returns
  \<open>-1\<close>.
\<close>

lemma writei_returned:
  assumes "i_type ip \<noteq> T_DEV" and "n < 2 ^ 32" and "i_size ip < 2 ^ 32"
  shows "(off > i_size ip \<or> off + n \<ge> 2 ^ 32 \<longrightarrow> writei ip src off n s = Inr (- 1, ip, s))
    \<and> (off \<le> i_size ip \<and> off + n < 2 ^ 32 \<longrightarrow>
        (\<forall>r ip' s'. writei ip src off n s = Inr (r, ip', s') \<longrightarrow>
           r = int (wclamp off n) \<and> r \<noteq> - 1
           \<and> i_size ip' = (if 0 < wclamp off n \<and> i_size ip < off + wclamp off n
                           then off + wclamp off n else i_size ip)
           \<and> (0 < wclamp off n \<and> i_size ip < off + wclamp off n \<longrightarrow>
                dinodes s' (i_inum ip) =
                  \<lparr>d_type = i_type ip', d_major = i_major ip', d_minor = i_minor ip',
                   d_nlink = i_nlink ip', d_size = off + wclamp off n, d_gen = i_gen ip',
                   d_addrs = i_addrs ip'\<rparr>)
           \<and> (wf_file ip s \<and> wclamp off n \<le> length src \<longrightarrow>
                wf_file ip' s'
                \<and> (\<forall>k. off \<le> k \<and> k < off + wclamp off n \<longrightarrow>
                       mapped ip' s' (k div BSIZE) \<and> fbyte ip' s' k = src ! (k - off))
                \<and> (\<forall>k. mapped ip s (k div BSIZE) \<and> (k < off \<or> off + wclamp off n \<le> k) \<longrightarrow>
                       fbyte ip' s' k = fbyte ip s k))))"
proof (intro conjI impI allI)
  assume rej: "off > i_size ip \<or> off + n \<ge> 2 ^ 32"
  show "writei ip src off n s = Inr (- 1, ip, s)"
  proof (cases "off > i_size ip")
    case True
    then show ?thesis using assms(1) by (simp add: writei_def)
  next
    case False
    with rej have ov: "off + n \<ge> 2 ^ 32" by simp
    from False assms(3) have o: "off < 2 ^ 32" by simp
    have "(off + n) mod 2 ^ 32 = off + n - 2 ^ 32"
      using ov o assms(2) by (simp add: mod_if)
    then have "(off + n) mod 2 ^ 32 < off" using assms(2) ov by simp
    then show ?thesis using assms(1) by (simp add: writei_def)
  qed
next
  fix r ip' s'
  assume ok: "off \<le> i_size ip \<and> off + n < 2 ^ 32"
    and run: "writei ip src off n s = Inr (r, ip', s')"
  let ?n = "wclamp off n"
  from ok have ok1: "off \<le> i_size ip" and ok2: "off + n < 2 ^ 32" by simp_all
  note w = writei_Inr[OF assms ok1 ok2 run, folded wclamp_def]
  note r = w[THEN conjunct1]
  note bd = w[THEN conjunct2, THEN conjunct1]
  from w[THEN conjunct2, THEN conjunct2] obtain ip1 s1 where
    c: "writei_loop 0 ?n off src ip s = Inr (off + ?n, ip1, s1)
        \<and> (if 0 < ?n \<and> i_size ip < off + ?n
              then ip' = ip1\<lparr>i_size := off + ?n\<rparr> \<and> s' = iupdate ip' s1
              else ip' = ip1 \<and> s' = s1)"
    by (elim exE)
  note lp = c[THEN conjunct1] and fin = c[THEN conjunct2]
  note res = writei_loop_result[OF lp]
  from res have sz1: "i_size ip1 = i_size ip" and in1: "i_inum ip1 = i_inum ip"
    by (metis inode.select_convs(11) inode.surjective inode.update_convs(12),
        metis inode.select_convs(2) inode.surjective inode.update_convs(12))
  show "r = int ?n" by (rule r)
  show "r \<noteq> - 1" using r by simp
  show "i_size ip' = (if 0 < ?n \<and> i_size ip < off + ?n then off + ?n else i_size ip)"
    using fin sz1 by (simp split: if_splits)
  { assume ext: "0 < ?n \<and> i_size ip < off + ?n"
    with fin have "ip' = ip1\<lparr>i_size := off + ?n\<rparr>" "s' = iupdate ip' s1" by simp_all
    then show "dinodes s' (i_inum ip) =
                  \<lparr>d_type = i_type ip', d_major = i_major ip', d_minor = i_minor ip',
                   d_nlink = i_nlink ip', d_size = off + ?n, d_gen = i_gen ip',
                   d_addrs = i_addrs ip'\<rparr>"
      using in1 by (simp add: iupdate_def) }
  { assume h: "wf_file ip s \<and> ?n \<le> length src"
    then have wf: "wf_file ip s" and len: "?n - 0 \<le> length src" by simp_all
    note l = writei_loop_wf[OF wf lp len]
    have e: "wf_file ip' s' = wf_file ip1 s1" "mapped ip' s' = mapped ip1 s1"
      "fbyte ip' s' = fbyte ip1 s1"
      using fin by (simp_all split: if_splits)
    show "wf_file ip' s'" unfolding e using l by simp
    { fix k assume "off \<le> k \<and> k < off + ?n"
      with l show "mapped ip' s' (k div BSIZE)" unfolding e by simp }
    { fix k assume "off \<le> k \<and> k < off + ?n"
      with l show "fbyte ip' s' k = src ! (k - off)" unfolding e by simp }
    { fix k assume "mapped ip s (k div BSIZE) \<and> (k < off \<or> off + ?n \<le> k)"
      with l show "fbyte ip' s' k = fbyte ip s k" unfolding e by simp } }
qed

lemma wf_ex: "wf_file ex_file ex_disk"
  unfolding wf_file_def
  by (auto simp: blk_of_def ex_file_def ex_disk_def BPB_def NDIRECT_def MAXFILE_def split: if_splits)

lemma writei_loop_step:
  "tot < n \<Longrightarrow> bmap ip (off div BSIZE) s = Inr (addr, ip', s') \<Longrightarrow>
   m = min (n - tot) (BSIZE - off mod BSIZE) \<Longrightarrow>
   writei_loop tot n off src ip s =
     writei_loop (tot + m) n (off + m) (drop m src) ip'
       (s'\<lparr>blocks := (blocks s')(addr := memmove_blk (blocks s' addr) (off mod BSIZE) src m)\<rparr>)"
  by (subst writei_loop.simps) (simp add: Let_def)

lemma writei_loop_done: "\<not> tot < n \<Longrightarrow> writei_loop tot n off src ip s = Inr (off, ip, s)"
  by (subst writei_loop.simps) simp

lemma ex_write:
  "writei ex_file ''hello'' 1000 5 ex_disk =
     Inr (5, ex_file\<lparr>i_size := 1005\<rparr>,
          iupdate (ex_file\<lparr>i_size := 1005\<rparr>)
            (ex_disk\<lparr>blocks := (blocks ex_disk)(41 := memmove_blk (blocks ex_disk 41) 488 ''hello'' 5)\<rparr>))"
proof -
  have d: "(1000::nat) div BSIZE = 1" "(1000::nat) mod BSIZE = 488" by (simp_all add: BSIZE_def)
  have m: "mapped ex_file ex_disk (1000 div BSIZE)" unfolding d
    by (simp add: mapped_def blk_of_def ex_file_def MAXFILE_def NDIRECT_def)
  have b: "blk_of ex_file ex_disk (1000 div BSIZE) = 41" unfolding d
    by (simp add: blk_of_def ex_file_def NDIRECT_def)
  have b1: "blk_of ex_file ex_disk (Suc 0) = 41"
    by (simp add: blk_of_def ex_file_def NDIRECT_def)
  have mm: "(5::nat) = min (5 - 0) (BSIZE - 1000 mod BSIZE)" by (simp add: BSIZE_def)
  have l: "writei_loop 0 5 1000 ''hello'' ex_file ex_disk =
     Inr (1005, ex_file, ex_disk\<lparr>blocks := (blocks ex_disk)(41 := memmove_blk (blocks ex_disk 41) 488 ''hello'' 5)\<rparr>)"
    by (subst writei_loop_step[OF _ bmap_mapped[OF m] mm]) (simp_all add: writei_loop_done b1 d)
  have t: "i_type ex_file \<noteq> T_DEV" "i_size ex_file = 1000" by (simp_all add: ex_file_def T_DEV_def)
  show ?thesis
    unfolding writei_def using t by (simp add: l MAXFILE_def BSIZE_def as_int_def Let_def)
qed

subsection \<open>When balloc, bmap and writei return\<close>

lemma balloc_inner_None:
  "balloc_inner bm b bi = None \<Longrightarrow> bi \<le> j \<Longrightarrow> j < BPB \<Longrightarrow> bm (b + j)"
proof (induction bm b bi rule: balloc_inner.induct)
  case (1 bm b bi)
  from "1.prems" have lt: "bi < BPB" by simp
  from "1.prems"(1) lt have used: "bm (b + bi)" and nxt: "balloc_inner bm b (bi + 1) = None"
    by (subst (asm) balloc_inner.simps, simp split: if_splits)+
  show ?case
  proof (cases "j = bi")
    case True
    with used show ?thesis by simp
  next
    case False
    with "1.prems" have "bi + 1 \<le> j" by simp
    from "1.IH"[OF lt _ nxt this "1.prems"(3)] used show ?thesis by simp
  qed
qed

lemma scan_limit_mult: "BPB dvd scan_limit s"
  by (simp add: scan_limit_def)

lemma roundup_ge: "b < sz \<Longrightarrow> BPB dvd b \<Longrightarrow> b + BPB \<le> ((sz + (BPB - 1)) div BPB) * BPB"
proof -
  assume a: "b < sz" "BPB dvd b"
  then obtain q where q: "b = BPB * q" by (auto elim: dvdE)
  have "q * BPB + BPB \<le> sz + (BPB - 1)" using a(1) q by (simp add: BPB_def)
  then have "(q + 1) * BPB \<le> sz + (BPB - 1)" by simp
  then have "q + 1 \<le> (sz + (BPB - 1)) div BPB"
    by (metis div_le_mono div_mult_self_is_m BPB_def zero_less_numeral)
  then have "(q + 1) * BPB \<le> ((sz + (BPB - 1)) div BPB) * BPB" by (rule mult_le_mono1)
  with q show ?thesis by (simp add: mult.commute)
qed

lemma roundup_le: "\<not> b < sz \<Longrightarrow> BPB dvd b \<Longrightarrow> ((sz + (BPB - 1)) div BPB) * BPB \<le> b"
proof -
  assume a: "\<not> b < sz" "BPB dvd b"
  then obtain q where q: "b = BPB * q" by (auto elim: dvdE)
  have "sz + (BPB - 1) < (q + 1) * BPB" using a(1) q by (simp add: BPB_def)
  then have "(sz + (BPB - 1)) div BPB < q + 1"
    by (simp add: less_mult_imp_div_less)
  then have "(sz + (BPB - 1)) div BPB \<le> q" by simp
  then have "((sz + (BPB - 1)) div BPB) * BPB \<le> q * BPB" by (rule mult_le_mono1)
  with q show ?thesis by (simp add: mult.commute)
qed

lemma balloc_outer_None:
  "balloc_outer bm sz b = None \<Longrightarrow> BPB dvd b \<Longrightarrow> b \<le> r \<Longrightarrow>
   r < ((sz + (BPB - 1)) div BPB) * BPB \<Longrightarrow> bm r"
proof (induction bm sz b rule: balloc_outer.induct)
  case (1 bm sz b)
  show ?case
  proof (cases "b < sz")
    case False
    from roundup_le[OF False "1.prems"(2)] "1.prems"(3,4) show ?thesis by simp
  next
    case True
    from "1.prems"(1) True have inn: "balloc_inner bm b 0 = None"
      and out: "balloc_outer bm sz (b + BPB) = None"
      by (subst (asm) balloc_outer.simps, simp split: option.splits)+
    show ?thesis
    proof (cases "r < b + BPB")
      case True
      with "1.prems"(3) have "r - b < BPB" by simp
      from balloc_inner_None[OF inn _ this] "1.prems"(3) show ?thesis by simp
    next
      case False
      then have "b + BPB \<le> r" by simp
      moreover have "BPB dvd b + BPB" using "1.prems"(2) by simp
      ultimately show ?thesis using "1.IH"[OF True inn out] "1.prems"(4) by simp
    qed
  qed
qed

lemma balloc_outer_limit:
  "balloc_outer bm sz b = Some r \<Longrightarrow> BPB dvd b \<Longrightarrow> r < ((sz + (BPB - 1)) div BPB) * BPB"
proof (induction bm sz b rule: balloc_outer.induct)
  case (1 bm sz b)
  show ?case
  proof (cases "b < sz")
    case False
    with "1.prems" show ?thesis by (subst (asm) balloc_outer.simps) simp
  next
    case True
    show ?thesis
    proof (cases "balloc_inner bm b 0")
      case None
      with True "1.prems" have "balloc_outer bm sz (b + BPB) = Some r"
        by (subst (asm) balloc_outer.simps) simp
      from "1.IH"[OF True None this] "1.prems"(2) show ?thesis by simp
    next
      case (Some r')
      with True "1.prems" have "r' = r" by (subst (asm) balloc_outer.simps) simp
      with balloc_inner_Some[OF Some] have "r < b + BPB" by simp
      with roundup_ge[OF True "1.prems"(2)] show ?thesis by simp
    qed
  qed
qed

lemma finite_free_blocks [simp]: "finite (free_blocks s)"
  by (simp add: free_blocks_def)

lemma balloc_total:
  assumes "free_blocks s \<noteq> {}"
  shows "\<exists>b. balloc s = Inr (b, s\<lparr>bitmap := (bitmap s)(b := True)\<rparr>)
            \<and> b \<in> free_blocks s
            \<and> free_blocks (s\<lparr>bitmap := (bitmap s)(b := True)\<rparr>) = free_blocks s - {b}"
proof -
  from assms obtain r where r: "r < scan_limit s" "\<not> bitmap s r" by (auto simp: free_blocks_def)
  have "balloc_outer (bitmap s) (sb_size s) 0 \<noteq> None"
  proof
    assume "balloc_outer (bitmap s) (sb_size s) 0 = None"
    from balloc_outer_None[OF this, of r] r show False by (simp add: scan_limit_def)
  qed
  then obtain b where b: "balloc_outer (bitmap s) (sb_size s) 0 = Some b" by auto
  from balloc_outer_Some[OF b] balloc_outer_limit[OF b] have fb: "b \<in> free_blocks s"
    by (simp add: free_blocks_def scan_limit_def)
  have "free_blocks (s\<lparr>bitmap := (bitmap s)(b := True)\<rparr>) = free_blocks s - {b}"
    by (auto simp: free_blocks_def scan_limit_def)
  with b fb show ?thesis by (auto simp: balloc_def)
qed

lemma free_blocks_blocks [simp]: "free_blocks (s\<lparr>blocks := x\<rparr>) = free_blocks s"
  by (simp add: free_blocks_def scan_limit_def)

lemma chunk_fill: "off + (BSIZE - off mod BSIZE) = (off div BSIZE + 1) * BSIZE"
proof -
  have "off div BSIZE * BSIZE + off mod BSIZE = off" by simp
  moreover have "off mod BSIZE < BSIZE" by (simp add: BSIZE_def)
  moreover have "(off div BSIZE + 1) * BSIZE = off div BSIZE * BSIZE + BSIZE" by simp
  ultimately show ?thesis by linarith
qed

lemma card_free_pos: "0 < card (free_blocks s) \<Longrightarrow> free_blocks s \<noteq> {}"
  by auto

text \<open>
  \<^verbatim>\<open>bmap\<close> returns when it finds the blocks it may have to allocate: one, and one more
  where the indirect block is not there yet.
\<close>

lemma bmap_total:
  assumes rng: "bn < MAXFILE" and b0: "bitmap s 0"
    and room: "1 + (if i_addrs ip NDIRECT = 0 then 1 else 0) \<le> card (free_blocks s)"
  shows "\<exists>addr ip' s'. bmap ip bn s = Inr (addr, ip', s') \<and> bitmap s' 0
     \<and> card (free_blocks s) + (if i_addrs ip' NDIRECT = 0 then 1 else 0)
        \<le> card (free_blocks s') + 1 + (if i_addrs ip NDIRECT = 0 then 1 else 0)"
proof -
  from room have ne: "free_blocks s \<noteq> {}" by (intro card_free_pos) simp
  from balloc_total[OF ne] obtain b where
    b: "balloc s = Inr (b, s\<lparr>bitmap := (bitmap s)(b := True)\<rparr>)" and bf: "b \<in> free_blocks s"
    and fb: "free_blocks (s\<lparr>bitmap := (bitmap s)(b := True)\<rparr>) = free_blocks s - {b}" by blast
  let ?s1 = "s\<lparr>bitmap := (bitmap s)(b := True)\<rparr>"
  have c1: "card (free_blocks ?s1) = card (free_blocks s) - 1" unfolding fb using bf by simp
  have bnz: "b \<noteq> 0" using bf b0 by (cases "b = 0") (auto simp: free_blocks_def)
  show ?thesis
  proof (cases "bn < NDIRECT")
    case True
    then have nd: "NDIRECT \<noteq> bn" by simp
    show ?thesis
    proof (cases "i_addrs ip bn = 0")
      case False
      with True b0 show ?thesis by (simp add: bmap_def)
    next
      case z: True
      with True have "bmap ip bn s = Inr (b, ip\<lparr>i_addrs := (i_addrs ip)(bn := b)\<rparr>, ?s1)"
        by (simp add: bmap_def b)
      then show ?thesis using b0 c1 nd room by simp
    qed
  next
    case nd: False
    let ?j = "bn - NDIRECT"
    from nd rng have j: "?j < NINDIRECT" by (simp add: MAXFILE_def NDIRECT_def NINDIRECT_def)
    show ?thesis
    proof (cases "i_addrs ip NDIRECT = 0")
      case nz: False
      show ?thesis
      proof (cases "rd_uint (blocks s (i_addrs ip NDIRECT)) ?j = 0")
        case False
        with nd j nz b0 show ?thesis by (simp add: bmap_def Let_def)
      next
        case True
        with nd j nz have "bmap ip bn s = Inr (b, ip,
           ?s1\<lparr>blocks := (blocks ?s1)(i_addrs ip NDIRECT := wr_uint (blocks s (i_addrs ip NDIRECT)) ?j b)\<rparr>)"
          by (simp add: bmap_def Let_def b)
        then show ?thesis using b0 c1 nz room by simp
      qed
    next
      case zi: True
      let ?ip1 = "ip\<lparr>i_addrs := (i_addrs ip)(NDIRECT := b)\<rparr>"
      from room zi c1 have ne1: "free_blocks ?s1 \<noteq> {}" by (intro card_free_pos) simp
      from balloc_total[OF ne1] obtain b2 where
        b2: "balloc ?s1 = Inr (b2, ?s1\<lparr>bitmap := (bitmap ?s1)(b2 := True)\<rparr>)"
        and bf2: "b2 \<in> free_blocks ?s1"
        and fb2: "free_blocks (?s1\<lparr>bitmap := (bitmap ?s1)(b2 := True)\<rparr>) = free_blocks ?s1 - {b2}"
        by blast
      let ?s2 = "?s1\<lparr>bitmap := (bitmap ?s1)(b2 := True)\<rparr>"
      have c2: "card (free_blocks ?s2) = card (free_blocks ?s1) - 1" unfolding fb2 using bf2 by simp
      have i1: "i_addrs ?ip1 NDIRECT \<noteq> 0" using bnz by simp
      show ?thesis
      proof (cases "rd_uint (blocks s b) ?j = 0")
        case False
        with nd j zi have "bmap ip bn s = Inr (rd_uint (blocks s b) ?j, ?ip1, ?s1)"
          by (simp add: bmap_def Let_def b)
        then show ?thesis using b0 c1 i1 zi room by simp
      next
        case True
        with nd j zi have "bmap ip bn s = Inr (b2, ?ip1,
            ?s2\<lparr>blocks := (blocks ?s2)(b := wr_uint (blocks ?s1 b) ?j b2)\<rparr>)"
          by (simp add: bmap_def Let_def b b2)
        then show ?thesis using b0 c1 c2 i1 zi room by auto
      qed
    qed
  qed
qed

lemma writei_loop_total:
  assumes "bitmap s 0"
    and "tot < n \<longrightarrow> off mod BSIZE + (n - tot) \<le> q * BSIZE \<and> off + (n - tot) \<le> MAXFILE * BSIZE
           \<and> q + (if i_addrs ip NDIRECT = 0 then 1 else 0) \<le> card (free_blocks s)"
  shows "\<exists>r. writei_loop tot n off src ip s = Inr r"
  using assms
proof (induction tot n off src ip s arbitrary: q rule: writei_loop.induct)
  case (1 tot n off src ip s)
  show ?case
  proof (cases "tot < n")
    case False
    then show ?thesis by (subst writei_loop.simps) simp
  next
    case True
    let ?o = "off mod BSIZE"
    let ?m = "min (n - tot) (BSIZE - ?o)"
    let ?ind = "\<lambda>ip. if i_addrs ip NDIRECT = 0 then 1 else (0::nat)"
    from "1.prems"(2) True have q1: "?o + (n - tot) \<le> q * BSIZE"
      and top: "off + (n - tot) \<le> MAXFILE * BSIZE"
      and room: "q + ?ind ip \<le> card (free_blocks s)" by simp_all
    have qpos: "1 \<le> q"
    proof (cases q)
      case 0 with q1 True show ?thesis by simp
    qed simp
    have "off < MAXFILE * BSIZE" using top True by linarith
    then have rng: "off div BSIZE < MAXFILE"
      by (simp add: BSIZE_def less_mult_imp_div_less)
    have room1: "1 + ?ind ip \<le> card (free_blocks s)" using room qpos by linarith
    from bmap_total[OF rng "1.prems"(1) room1] obtain addr ip1 s1 where
      bm: "bmap ip (off div BSIZE) s = Inr (addr, ip1, s1)" and b1: "bitmap s1 0"
      and c: "card (free_blocks s) + ?ind ip1 \<le> card (free_blocks s1) + 1 + ?ind ip" by blast
    let ?s2 = "s1\<lparr>blocks := (blocks s1)(addr := memmove_blk (blocks s1 addr) ?o src ?m)\<rparr>"
    have b2: "bitmap ?s2 0" using b1 by simp
    have nxt: "tot + ?m < n \<longrightarrow>
         (off + ?m) mod BSIZE + (n - (tot + ?m)) \<le> (q - 1) * BSIZE
         \<and> off + ?m + (n - (tot + ?m)) \<le> MAXFILE * BSIZE
         \<and> (q - 1) + ?ind ip1 \<le> card (free_blocks ?s2)"
    proof (intro impI conjI)
      assume more: "tot + ?m < n"
      then have m: "?m = BSIZE - ?o" by (simp add: min_def split: if_splits)
      have olt: "?o < BSIZE" by (simp add: BSIZE_def)
      have "off + ?m = (off div BSIZE + 1) * BSIZE" unfolding m by (rule chunk_fill)
      then have z: "(off + ?m) mod BSIZE = 0" by simp
      have "(q - 1) * BSIZE = q * BSIZE - BSIZE" by (simp add: diff_mult_distrib)
      then show "(off + ?m) mod BSIZE + (n - (tot + ?m)) \<le> (q - 1) * BSIZE"
        unfolding z using q1 olt more unfolding m by linarith
      show "off + ?m + (n - (tot + ?m)) \<le> MAXFILE * BSIZE" using top True by simp
      show "(q - 1) + ?ind ip1 \<le> card (free_blocks ?s2)" using c room qpos by simp
    qed
    from "1.IH"[OF True bm refl refl refl b2 nxt] obtain r where
      "writei_loop (tot + ?m) n (off + ?m) (drop ?m src) ip1 ?s2 = Inr r" by blast
    then show ?thesis unfolding writei_loop_step[OF True bm refl] by (rule exI)
  qed
qed

subsection \<open>Writing and reading back\<close>

lemma writei_reject:
  assumes "i_type ip \<noteq> T_DEV" and "n < 2 ^ 32" and "i_size ip < 2 ^ 32"
    and rej: "off > i_size ip \<or> off + n \<ge> 2 ^ 32"
  shows "writei ip src off n s = Inr (- 1, ip, s)"
proof (cases "off > i_size ip")
  case True
  then show ?thesis using assms(1) by (simp add: writei_def)
next
  case False
  with rej have ov: "off + n \<ge> 2 ^ 32" by simp
  from False assms(3) have o: "off < 2 ^ 32" by simp
  have "(off + n) mod 2 ^ 32 = off + n - 2 ^ 32"
    using ov o assms(2) by (simp add: mod_if)
  then have "(off + n) mod 2 ^ 32 < off" using assms(2) ov by simp
  then show ?thesis using assms(1) by (simp add: writei_def)
qed

lemma readi_range:
  assumes dev: "i_type ip \<noteq> T_DEV" and fit: "off + n \<le> i_size ip" and sz: "i_size ip < 2 ^ 32"
    and mp: "\<And>k. off \<le> k \<Longrightarrow> k < off + n \<Longrightarrow> mapped ip s (k div BSIZE)"
  shows "readi ip off n s = Inr (int n, map (fbyte ip s) [off..<off + n], ip, s)"
proof -
  have md: "(off + n) mod 2 ^ 32 = off + n" using fit sz by simp
  have lp: "readi_loop 0 n off [] ip s = Inr (map (fbyte ip s) [off..<off + n], ip, s)"
  proof (cases "n = 0")
    case True
    then show ?thesis by (subst readi_loop.simps) simp
  next
    case False
    have mp': "\<forall>bn. off div BSIZE \<le> bn \<and> bn * BSIZE < off + (n - 0) \<longrightarrow> mapped ip s bn"
    proof (intro allI impI)
      fix bn assume a: "off div BSIZE \<le> bn \<and> bn * BSIZE < off + (n - 0)"
      let ?k = "max off (bn * BSIZE)"
      have k: "off \<le> ?k" "?k < off + n" using a False by auto
      have "?k div BSIZE = bn"
      proof (cases "off \<le> bn * BSIZE")
        case True then show ?thesis by (simp add: max_def BSIZE_def)
      next
        case False
        then have "off div BSIZE \<ge> bn" 
          by (metis div_le_mono div_mult_self_is_m BSIZE_def le_cases zero_less_numeral)
        with a False show ?thesis by (simp add: max_def)
      qed
      with mp[OF k] show "mapped ip s bn" by simp
    qed
    show ?thesis using readi_loop_mapped[OF mp', of "[]"] by simp
  qed
  have "n < 2 ^ 31"
  proof (cases "0 < n")
    case True
    from readi_loop_result[OF lp] True have "off + n \<le> MAXFILE * BSIZE" by simp
    then have "n \<le> MAXFILE * BSIZE" by linarith
    then show ?thesis by (simp add: MAXFILE_def BSIZE_def)
  next
    case False then show ?thesis by simp
  qed
  then have ai: "as_int n = int n" by (simp add: as_int_def)
  from fit have le: "off \<le> i_size ip" "\<not> i_size ip < off + n" by simp_all
  show ?thesis
    unfolding readi_def md Let_def using dev le by (simp add: lp ai)
qed

lemma roundtrip:
  assumes dev: "i_type ip \<noteq> T_DEV" and n: "n < 2 ^ 32" and sz: "i_size ip < 2 ^ 32"
    and wf: "wf_file ip s" and len: "n \<le> length src"
    and run: "writei ip src off n s = Inr (int n, ip', s')"
  shows "readi ip' off n s' = Inr (int n, take n src, ip', s')"
    and "i_size ip' = (if 0 < n \<and> i_size ip < off + n then off + n else i_size ip)"
    and "\<And>k. off \<le> k \<Longrightarrow> k < off + n \<Longrightarrow> mapped ip' s' (k div BSIZE)"
proof -
  have nrej: "\<not> (off > i_size ip \<or> off + n \<ge> 2 ^ 32)"
  proof
    assume "off > i_size ip \<or> off + n \<ge> 2 ^ 32"
    from writei_reject[OF dev n sz this, of src s] run show False by simp
  qed
  then have ok1: "off \<le> i_size ip" and ok2: "off + n < 2 ^ 32" by simp_all
  note w = writei_Inr[OF dev n sz ok1 ok2 run, folded wclamp_def]
  from w[THEN conjunct1] have c: "wclamp off n = n" by simp
  note bd = w[THEN conjunct2, THEN conjunct1, unfolded c]
  from w[THEN conjunct2, THEN conjunct2] obtain ip1 s1 where
    cc: "writei_loop 0 n off src ip s = Inr (off + n, ip1, s1)
        \<and> (if 0 < n \<and> i_size ip < off + n
              then ip' = ip1\<lparr>i_size := off + n\<rparr> \<and> s' = iupdate ip' s1
              else ip' = ip1 \<and> s' = s1)"
    unfolding c by (elim exE)
  note lp = cc[THEN conjunct1] and fin = cc[THEN conjunct2]
  have len0: "n - 0 \<le> length src" using len by simp
  note l = writei_loop_wf[OF wf lp len0]
  note res = writei_loop_result[OF lp]
  from res have ip1: "ip1 = ip\<lparr>i_addrs := i_addrs ip1\<rparr>" by simp
  have sz1: "i_size ip1 = i_size ip" by (subst ip1) simp
  have ty1: "i_type ip1 = i_type ip" by (subst ip1) simp
  have e: "mapped ip' s' = mapped ip1 s1" "fbyte ip' s' = fbyte ip1 s1" "i_type ip' = i_type ip"
    using fin ty1 by (simp_all split: if_splits)
  show size': "i_size ip' = (if 0 < n \<and> i_size ip < off + n then off + n else i_size ip)"
    using fin sz1 by (simp split: if_splits)
  have wr: "mapped ip' s' (k div BSIZE) \<and> fbyte ip' s' k = src ! (k - off)"
    if "off \<le> k" "k < off + n" for k
    unfolding e using l[THEN conjunct2, THEN conjunct2, THEN conjunct1, rule_format, of k] that
    by simp
  then show "\<And>k. off \<le> k \<Longrightarrow> k < off + n \<Longrightarrow> mapped ip' s' (k div BSIZE)" by simp
  have fit: "off + n \<le> i_size ip'" using size' ok1 by (simp split: if_splits)
  have sz': "i_size ip' < 2 ^ 32"
    using size' sz ok2 by (simp split: if_splits)
  have mp: "\<And>k. off \<le> k \<Longrightarrow> k < off + n \<Longrightarrow> mapped ip' s' (k div BSIZE)"
    using wr by simp
  have dev': "i_type ip' \<noteq> T_DEV" using dev e by simp
  have "map (fbyte ip' s') [off..<off + n] = map (\<lambda>k. src ! (k - off)) [off..<off + n]"
    using wr by (intro map_cong) auto
  also have "\<dots> = map (\<lambda>i. src ! i) [0..<n]"
    by (simp add: map_add_upt[symmetric] o_def add.commute)
  also have "\<dots> = take n src" by (rule nth_equalityI) (use len in auto)
  finally have bytes: "map (fbyte ip' s') [off..<off + n] = take n src" .
  show "readi ip' off n s' = Inr (int n, take n src, ip', s')"
    using readi_range[OF dev' fit sz' mp] bytes by simp
qed

lemma writei_total:
  assumes dev: "i_type ip \<noteq> T_DEV" and ok: "off \<le> i_size ip"
    and top: "off + n \<le> MAXFILE * BSIZE" and b0: "bitmap s 0"
    and q: "off mod BSIZE + n \<le> q * BSIZE"
    and room: "q + (if i_addrs ip NDIRECT = 0 then 1 else 0) \<le> card (free_blocks s)"
  shows "\<exists>ip' s'. writei ip src off n s = Inr (int n, ip', s')"
proof -
  have lt: "off + n < 2 ^ 32" using top by (simp add: MAXFILE_def BSIZE_def)
  then have md: "(off + n) mod 2 ^ 32 = off + n" by simp
  have pre: "0 < n \<longrightarrow> off mod BSIZE + (n - 0) \<le> q * BSIZE \<and> off + (n - 0) \<le> MAXFILE * BSIZE
           \<and> q + (if i_addrs ip NDIRECT = 0 then 1 else 0) \<le> card (free_blocks s)"
    using q top room by simp
  from writei_loop_total[OF b0 pre] obtain off' ip1 s1 where
    lp: "writei_loop 0 n off src ip s = Inr (off', ip1, s1)" by (metis prod_cases3)
  have "n < 2 ^ 31" using top by (simp add: MAXFILE_def BSIZE_def)
  then have ai: "as_int n = int n" by (simp add: as_int_def)
  have nc: "\<not> MAXFILE * BSIZE < off + n" using top by simp
  show ?thesis
    unfolding writei_def md Let_def using dev ok nc by (simp add: lp ai)
qed

text \<open>
  Claim C6. Round trip of file contents: for an inode that is not a device, file and
  disk fitting together, when \<^verbatim>\<open>writei\<close> of \<open>n\<close> bytes at \<open>off\<close> (aligned or not) returns
  \<open>n\<close>, \<^verbatim>\<open>readi\<close> of \<open>n\<close> bytes at \<open>off\<close> returns \<open>n\<close> and the bytes written. In
  particular a write of 8192 bytes at offset 0 to a file of size 0, on a disk with 17
  free blocks, returns 8192 and leaves the size 8192, the twelve direct addresses and
  the address of the indirect block non-zero, and the \<^verbatim>\<open>readi\<close> of 8192 bytes at 0
  returns the same bytes.
\<close>

theorem write_read_roundtrip:
  "(i_type ip \<noteq> T_DEV \<and> n < 2 ^ 32 \<and> i_size ip < 2 ^ 32 \<and> wf_file ip s \<and> n \<le> length src
      \<and> writei ip src off n s = Inr (int n, ip', s')
     \<longrightarrow> readi ip' off n s' = Inr (int n, take n src, ip', s'))
   \<and> (i_type fp \<noteq> T_DEV \<and> i_size fp = 0 \<and> wf_file fp t \<and> 17 \<le> card (free_blocks t)
        \<and> 8192 \<le> length buf
     \<longrightarrow> (\<exists>fp' t'. writei fp buf 0 8192 t = Inr (8192, fp', t') \<and> i_size fp' = 8192
            \<and> (\<forall>k<NDIRECT. i_addrs fp' k \<noteq> 0) \<and> i_addrs fp' NDIRECT \<noteq> 0
            \<and> readi fp' 0 8192 t' = Inr (8192, take 8192 buf, fp', t')))"
proof (intro conjI impI)
  assume a: "i_type ip \<noteq> T_DEV \<and> n < 2 ^ 32 \<and> i_size ip < 2 ^ 32 \<and> wf_file ip s \<and> n \<le> length src
      \<and> writei ip src off n s = Inr (int n, ip', s')"
  then show "readi ip' off n s' = Inr (int n, take n src, ip', s')"
    by (intro roundtrip(1)[of ip n s src off]) simp_all
next
  assume a: "i_type fp \<noteq> T_DEV \<and> i_size fp = 0 \<and> wf_file fp t \<and> 17 \<le> card (free_blocks t)
        \<and> 8192 \<le> length buf"
  then have dev: "i_type fp \<noteq> T_DEV" and sz: "i_size fp = 0" and wf: "wf_file fp t"
    and room: "17 \<le> card (free_blocks t)" and len: "8192 \<le> length buf" by simp_all
  have b0: "bitmap t 0" by (rule wf_fileD(1)[OF wf])
  have "\<exists>fp' t'. writei fp buf 0 8192 t = Inr (int 8192, fp', t')"
  proof (rule writei_total[OF dev _ _ b0, where q = 16])
    show "0 \<le> i_size fp" by simp
    show "0 + 8192 \<le> MAXFILE * BSIZE" by (simp add: MAXFILE_def BSIZE_def)
    show "0 mod BSIZE + 8192 \<le> 16 * BSIZE" by (simp add: BSIZE_def)
    show "16 + (if i_addrs fp NDIRECT = 0 then 1 else 0) \<le> card (free_blocks t)"
      using room by simp
  qed
  then obtain fp' t' where run: "writei fp buf 0 8192 t = Inr (int 8192, fp', t')" by blast
  have n: "(8192::nat) < 2 ^ 32" and sz32: "i_size fp < 2 ^ 32" using sz by simp_all
  note r = roundtrip[OF dev n sz32 wf len run]
  have size': "i_size fp' = 8192" using r(2) sz by simp
  have mp: "mapped fp' t' bn" if "bn < 16" for bn
  proof -
    have "bn * BSIZE < 0 + 8192" using that by (simp add: BSIZE_def)
    from r(3)[OF _ this] show ?thesis by (simp add: BSIZE_def)
  qed
  have direct: "i_addrs fp' k \<noteq> 0" if "k < NDIRECT" for k
  proof -
    from that have "k < 16" by (simp add: NDIRECT_def)
    from mp[OF this] that show ?thesis by (simp add: mapped_def blk_of_def)
  qed
  have ind: "i_addrs fp' NDIRECT \<noteq> 0"
  proof -
    have "mapped fp' t' 12" by (rule mp) simp
    then show ?thesis by (auto simp: mapped_def blk_of_def NDIRECT_def split: if_splits)
  qed
  from run r(1) size' direct ind
  show "\<exists>fp' t'. writei fp buf 0 8192 t = Inr (8192, fp', t') \<and> i_size fp' = 8192
            \<and> (\<forall>k<NDIRECT. i_addrs fp' k \<noteq> 0) \<and> i_addrs fp' NDIRECT \<noteq> 0
            \<and> readi fp' 0 8192 t' = Inr (8192, take 8192 buf, fp', t')"
    by (intro exI[of _ fp'] exI[of _ t']) simp
qed

lemma free_blocks_ex: "free_blocks ex_disk = {42..<4096}"
  by (auto simp: free_blocks_def scan_limit_def ex_disk_def BPB_def)

lemma wf_fresh_ex: "wf_file ex_fresh ex_disk"
  unfolding wf_file_def
  by (auto simp: blk_of_def ex_fresh_def ex_disk_def BPB_def NDIRECT_def MAXFILE_def rd_uint_def
      split: if_splits)

theorem write_read_roundtrip_witness:
  "i_type ex_fresh \<noteq> T_DEV \<and> i_size ex_fresh = 0 \<and> wf_file ex_fresh ex_disk
   \<and> 17 \<le> card (free_blocks ex_disk) \<and> 8192 \<le> length (replicate 8192 (CHR ''A''))
   \<and> (\<exists>fp' t'. writei ex_fresh (replicate 8192 (CHR ''A'')) 0 8192 ex_disk = Inr (8192, fp', t')
         \<and> i_size fp' = 8192 \<and> i_addrs fp' 0 \<noteq> 0 \<and> i_addrs fp' 11 \<noteq> 0 \<and> i_addrs fp' 12 \<noteq> 0
         \<and> readi fp' 0 8192 t' = Inr (8192, replicate 8192 (CHR ''A''), fp', t'))"
proof -
  have h: "i_type ex_fresh \<noteq> T_DEV \<and> i_size ex_fresh = 0 \<and> wf_file ex_fresh ex_disk
      \<and> 17 \<le> card (free_blocks ex_disk) \<and> 8192 \<le> length (replicate 8192 (CHR ''A''))"
    using wf_fresh_ex by (simp add: ex_fresh_def T_DEV_def free_blocks_ex)
  from write_read_roundtrip[of _ _ _ _ _ _ _ ex_fresh ex_disk "replicate 8192 (CHR ''A'')"] h
  obtain fp' t' where
    r: "writei ex_fresh (replicate 8192 (CHR ''A'')) 0 8192 ex_disk = Inr (8192, fp', t')"
      "i_size fp' = 8192" "\<forall>k<NDIRECT. i_addrs fp' k \<noteq> 0" "i_addrs fp' NDIRECT \<noteq> 0"
      "readi fp' 0 8192 t' = Inr (8192, take 8192 (replicate 8192 (CHR ''A'')), fp', t')"
    by blast
  from r(3) have "i_addrs fp' 0 \<noteq> 0" "i_addrs fp' 11 \<noteq> 0" by (simp_all add: NDIRECT_def)
  moreover from r(4) have "i_addrs fp' 12 \<noteq> 0" by (simp add: NDIRECT_def)
  moreover from r(5) have "readi fp' 0 8192 t' = Inr (8192, replicate 8192 (CHR ''A''), fp', t')"
    by simp
  ultimately show ?thesis using h r(1,2) by blast
qed

subsection \<open>writei: the contract\<close>

lemma balloc_inner_full: "(\<forall>r. bm r) \<Longrightarrow> balloc_inner bm b bi = None"
proof (induction bm b bi rule: balloc_inner.induct)
  case (1 bm b bi)
  show ?case
  proof (cases "bi < BPB")
    case True
    with "1.prems" have "bm (b + bi)" by simp
    with True "1.IH"[OF True _ "1.prems"] show ?thesis by (subst balloc_inner.simps) simp
  next
    case False
    then show ?thesis by (subst balloc_inner.simps) simp
  qed
qed

lemma balloc_outer_full: "(\<forall>r. bm r) \<Longrightarrow> balloc_outer bm sz b = None"
proof (induction bm sz b rule: balloc_outer.induct)
  case (1 bm sz b)
  note i = balloc_inner_full[OF "1.prems", of b 0]
  show ?case
  proof (cases "b < sz")
    case True
    with i "1.IH"[OF True i "1.prems"] show ?thesis by (subst balloc_outer.simps) simp
  next
    case False
    then show ?thesis by (subst balloc_outer.simps) simp
  qed
qed

lemma balloc_full: "(\<forall>r. bitmap s r) \<Longrightarrow> balloc s = panic ''balloc: out of blocks''"
  by (simp add: balloc_def balloc_outer_full)

lemma writei_total_clamp:
  assumes dev: "i_type ip \<noteq> T_DEV" and ok: "off \<le> i_size ip" and lt: "off + n < 2 ^ 32"
    and top: "off \<le> MAXFILE * BSIZE" and b0: "bitmap s 0"
    and q: "off mod BSIZE + wclamp off n \<le> q * BSIZE"
    and room: "q + (if i_addrs ip NDIRECT = 0 then 1 else 0) \<le> card (free_blocks s)"
  shows "\<exists>ip' s'. writei ip src off n s = Inr (int (wclamp off n), ip', s')"
proof (cases "off + n \<le> MAXFILE * BSIZE")
  case True
  then have c: "wclamp off n = n" by (simp add: wclamp_def)
  from writei_total[OF dev ok True b0 q[unfolded c] room] show ?thesis unfolding c .
next
  case False
  let ?n = "MAXFILE * BSIZE - off"
  from False have c: "wclamp off n = ?n" by (simp add: wclamp_def)
  from lt have md: "(off + n) mod 2 ^ 32 = off + n" by simp
  have e: "MAXFILE * BSIZE + 2 ^ 32 - off = ?n + 2 ^ 32" using top by simp
  have l: "?n < 2 ^ 32" by (simp add: MAXFILE_def BSIZE_def)
  have cl: "(MAXFILE * BSIZE + 2 ^ 32 - off) mod 2 ^ 32 = ?n"
    unfolding e by (simp only: mod_add_self2 mod_less[OF l])
  have pre: "0 < ?n \<longrightarrow> off mod BSIZE + (?n - 0) \<le> q * BSIZE \<and> off + (?n - 0) \<le> MAXFILE * BSIZE
           \<and> q + (if i_addrs ip NDIRECT = 0 then 1 else 0) \<le> card (free_blocks s)"
    using q[unfolded c] top room by simp
  from writei_loop_total[OF b0 pre] obtain off' ip1 s1 where
    lp: "writei_loop 0 ?n off src ip s = Inr (off', ip1, s1)" by (metis prod_cases3)
  have "?n < 2 ^ 31" by (simp add: MAXFILE_def BSIZE_def)
  then have ai: "as_int ?n = int ?n" by (simp add: as_int_def)
  have nc: "MAXFILE * BSIZE < off + n" using False by simp
  show ?thesis
    unfolding writei_def md Let_def cl c using dev ok nc by (simp add: lp ai)
qed

text \<open>
  Claim C4. For an inode that is not a device, \<^verbatim>\<open>writei(ip, src, off, n)\<close> returns \<open>-1\<close>
  when \<open>off > size\<close> or \<open>off + n\<close> overflows (the arguments and the size being
  \<^verbatim>\<open>uint\<close>s). Otherwise, when the file and the disk fit together, the size is within
  \<open>MAXFILE * BSIZE\<close> and the disk has a free block for each of the \<open>q\<close> blocks the
  clamped range touches and one more for an indirect block the file does not have yet,
  the call returns: it has clamped \<open>n\<close> to \<open>MAXFILE * BSIZE - off\<close> and returns the
  clamped count; when the write extended the file past its size, the size is the end
  of the written range and \<^verbatim>\<open>iupdate\<close> has written the inode; the clamped bytes of \<open>src\<close>
  are the contents of the file from \<open>off\<close> on, in blocks that \<^verbatim>\<open>bmap\<close> gave; and the
  other bytes of the file are as before. Whatever the disk, a call that returns
  returns the clamped count and has set the size so.
\<close>

theorem writei_contract:
  assumes "i_type ip \<noteq> T_DEV" and "n < 2 ^ 32" and "i_size ip < 2 ^ 32"
  shows "(off > i_size ip \<or> off + n \<ge> 2 ^ 32 \<longrightarrow> writei ip src off n s = Inr (- 1, ip, s))
    \<and> (off \<le> i_size ip \<and> off + n < 2 ^ 32 \<and> i_size ip \<le> MAXFILE * BSIZE
         \<and> wf_file ip s \<and> wclamp off n \<le> length src
         \<and> off mod BSIZE + wclamp off n \<le> q * BSIZE
         \<and> q + (if i_addrs ip NDIRECT = 0 then 1 else 0) \<le> card (free_blocks s) \<longrightarrow>
        (\<exists>ip' s'. writei ip src off n s = Inr (int (wclamp off n), ip', s')
           \<and> i_size ip' = (if 0 < wclamp off n \<and> i_size ip < off + wclamp off n
                           then off + wclamp off n else i_size ip)
           \<and> (0 < wclamp off n \<and> i_size ip < off + wclamp off n \<longrightarrow>
                dinodes s' (i_inum ip) =
                  \<lparr>d_type = i_type ip', d_major = i_major ip', d_minor = i_minor ip',
                   d_nlink = i_nlink ip', d_size = off + wclamp off n, d_gen = i_gen ip',
                   d_addrs = i_addrs ip'\<rparr>)
           \<and> wf_file ip' s'
           \<and> (\<forall>k. off \<le> k \<and> k < off + wclamp off n \<longrightarrow>
                  mapped ip' s' (k div BSIZE) \<and> fbyte ip' s' k = src ! (k - off))
           \<and> (\<forall>k. mapped ip s (k div BSIZE) \<and> (k < off \<or> off + wclamp off n \<le> k) \<longrightarrow>
                  fbyte ip' s' k = fbyte ip s k)))
    \<and> (off \<le> i_size ip \<and> off + n < 2 ^ 32 \<longrightarrow>
        (\<forall>r ip' s'. writei ip src off n s = Inr (r, ip', s') \<longrightarrow>
           r = int (wclamp off n) \<and> r \<noteq> - 1
           \<and> i_size ip' = (if 0 < wclamp off n \<and> i_size ip < off + wclamp off n
                           then off + wclamp off n else i_size ip)))"
proof (intro conjI impI)
  assume "off > i_size ip \<or> off + n \<ge> 2 ^ 32"
  with writei_returned[OF assms, of off src s] show "writei ip src off n s = Inr (- 1, ip, s)"
    by blast
next
  assume h: "off \<le> i_size ip \<and> off + n < 2 ^ 32 \<and> i_size ip \<le> MAXFILE * BSIZE
         \<and> wf_file ip s \<and> wclamp off n \<le> length src
         \<and> off mod BSIZE + wclamp off n \<le> q * BSIZE
         \<and> q + (if i_addrs ip NDIRECT = 0 then 1 else 0) \<le> card (free_blocks s)"
  then have ok: "off \<le> i_size ip" and lt: "off + n < 2 ^ 32" and top: "off \<le> MAXFILE * BSIZE"
    and wf: "wf_file ip s" and len: "wclamp off n \<le> length src"
    and q: "off mod BSIZE + wclamp off n \<le> q * BSIZE"
    and room: "q + (if i_addrs ip NDIRECT = 0 then 1 else 0) \<le> card (free_blocks s)"
    by simp_all
  from wf have b0: "bitmap s 0" by (simp add: wf_file_def)
  from writei_total_clamp[OF assms(1) ok lt top b0 q room] obtain ip' s' where
    run: "writei ip src off n s = Inr (int (wclamp off n), ip', s')" by blast
  from writei_returned[OF assms, of off src s] ok lt
  have "\<forall>r ip' s'. writei ip src off n s = Inr (r, ip', s') \<longrightarrow>
           r = int (wclamp off n) \<and> r \<noteq> - 1
           \<and> i_size ip' = (if 0 < wclamp off n \<and> i_size ip < off + wclamp off n
                           then off + wclamp off n else i_size ip)
           \<and> (0 < wclamp off n \<and> i_size ip < off + wclamp off n \<longrightarrow>
                dinodes s' (i_inum ip) =
                  \<lparr>d_type = i_type ip', d_major = i_major ip', d_minor = i_minor ip',
                   d_nlink = i_nlink ip', d_size = off + wclamp off n, d_gen = i_gen ip',
                   d_addrs = i_addrs ip'\<rparr>)
           \<and> (wf_file ip s \<and> wclamp off n \<le> length src \<longrightarrow>
                wf_file ip' s'
                \<and> (\<forall>k. off \<le> k \<and> k < off + wclamp off n \<longrightarrow>
                       mapped ip' s' (k div BSIZE) \<and> fbyte ip' s' k = src ! (k - off))
                \<and> (\<forall>k. mapped ip s (k div BSIZE) \<and> (k < off \<or> off + wclamp off n \<le> k) \<longrightarrow>
                       fbyte ip' s' k = fbyte ip s k))"
    by blast
  note p = this[rule_format, OF run]
  note p3 = p[THEN conjunct2, THEN conjunct2, THEN conjunct1]
    and p4 = p[THEN conjunct2, THEN conjunct2, THEN conjunct2, THEN conjunct1]
    and p5 = p[THEN conjunct2, THEN conjunct2, THEN conjunct2, THEN conjunct2, rule_format,
               OF conjI[OF wf len]]
  from run p3 p4 p5
  have "writei ip src off n s = Inr (int (wclamp off n), ip', s')
           \<and> i_size ip' = (if 0 < wclamp off n \<and> i_size ip < off + wclamp off n
                           then off + wclamp off n else i_size ip)
           \<and> (0 < wclamp off n \<and> i_size ip < off + wclamp off n \<longrightarrow>
                dinodes s' (i_inum ip) =
                  \<lparr>d_type = i_type ip', d_major = i_major ip', d_minor = i_minor ip',
                   d_nlink = i_nlink ip', d_size = off + wclamp off n, d_gen = i_gen ip',
                   d_addrs = i_addrs ip'\<rparr>)
           \<and> wf_file ip' s'
           \<and> (\<forall>k. off \<le> k \<and> k < off + wclamp off n \<longrightarrow>
                  mapped ip' s' (k div BSIZE) \<and> fbyte ip' s' k = src ! (k - off))
           \<and> (\<forall>k. mapped ip s (k div BSIZE) \<and> (k < off \<or> off + wclamp off n \<le> k) \<longrightarrow>
                  fbyte ip' s' k = fbyte ip s k)"
    by (intro conjI) simp_all
  then show "\<exists>ip' s'. writei ip src off n s = Inr (int (wclamp off n), ip', s')
           \<and> i_size ip' = (if 0 < wclamp off n \<and> i_size ip < off + wclamp off n
                           then off + wclamp off n else i_size ip)
           \<and> (0 < wclamp off n \<and> i_size ip < off + wclamp off n \<longrightarrow>
                dinodes s' (i_inum ip) =
                  \<lparr>d_type = i_type ip', d_major = i_major ip', d_minor = i_minor ip',
                   d_nlink = i_nlink ip', d_size = off + wclamp off n, d_gen = i_gen ip',
                   d_addrs = i_addrs ip'\<rparr>)
           \<and> wf_file ip' s'
           \<and> (\<forall>k. off \<le> k \<and> k < off + wclamp off n \<longrightarrow>
                  mapped ip' s' (k div BSIZE) \<and> fbyte ip' s' k = src ! (k - off))
           \<and> (\<forall>k. mapped ip s (k div BSIZE) \<and> (k < off \<or> off + wclamp off n \<le> k) \<longrightarrow>
                  fbyte ip' s' k = fbyte ip s k)"
    by blast
next
  assume "off \<le> i_size ip \<and> off + n < 2 ^ 32"
  with writei_returned[OF assms, of off src s]
  show "\<forall>r ip' s'. writei ip src off n s = Inr (r, ip', s') \<longrightarrow>
           r = int (wclamp off n) \<and> r \<noteq> - 1
           \<and> i_size ip' = (if 0 < wclamp off n \<and> i_size ip < off + wclamp off n
                           then off + wclamp off n else i_size ip)"
    by blast
qed


theorem writei_contract_witness:
  "i_type ex_file \<noteq> T_DEV \<and> (100::nat) < 2 ^ 32 \<and> i_size ex_file < 2 ^ 32
   \<and> 1000 \<le> i_size ex_file \<and> 1000 + 100 < (2::nat) ^ 32 \<and> i_size ex_file \<le> MAXFILE * BSIZE
   \<and> wf_file ex_file ex_disk \<and> wclamp 1000 100 \<le> length (replicate 100 (CHR ''x''))
   \<and> 1000 mod BSIZE + wclamp 1000 100 \<le> 2 * BSIZE
   \<and> 2 + (if i_addrs ex_file NDIRECT = 0 then 1 else 0) \<le> card (free_blocks ex_disk)
   \<and> \<not> mapped ex_file ex_disk 2
   \<and> (\<exists>ip' s'. writei ex_file (replicate 100 (CHR ''x'')) 1000 100 ex_disk = Inr (100, ip', s')
         \<and> i_size ip' = 1100 \<and> d_size (dinodes s' 7) = 1100 \<and> mapped ip' s' 2
         \<and> fbyte ip' s' 1000 = CHR ''x'' \<and> fbyte ip' s' 1099 = CHR ''x''
         \<and> fbyte ip' s' 999 = CHR ''b'')
   \<and> i_type ex_fresh \<noteq> T_DEV \<and> (80000::nat) < 2 ^ 32 \<and> i_size ex_fresh < 2 ^ 32
   \<and> 0 \<le> i_size ex_fresh \<and> 0 + 80000 < (2::nat) ^ 32 \<and> i_size ex_fresh \<le> MAXFILE * BSIZE
   \<and> wf_file ex_fresh ex_disk \<and> wclamp 0 80000 \<le> length (replicate 80000 (CHR ''A''))
   \<and> 0 mod BSIZE + wclamp 0 80000 \<le> 140 * BSIZE
   \<and> 140 + (if i_addrs ex_fresh NDIRECT = 0 then 1 else 0) \<le> card (free_blocks ex_disk)
   \<and> (\<exists>ip' s'. writei ex_fresh (replicate 80000 (CHR ''A'')) 0 80000 ex_disk = Inr (71680, ip', s')
         \<and> i_size ip' = 71680 \<and> mapped ip' s' 139 \<and> fbyte ip' s' 71679 = CHR ''A'')"
proof -
  define xs where "xs = replicate 100 (CHR ''x'')"
  define as where "as = replicate 80000 (CHR ''A'')"
  have lx: "length xs = 100" and nx: "\<And>k. k < 100 \<Longrightarrow> xs ! k = CHR ''x''"
    unfolding xs_def by (rule length_replicate, rule nth_replicate)
  have la: "length as = 80000" and na: "\<And>k. k < 80000 \<Longrightarrow> as ! k = CHR ''A''"
    unfolding as_def by (rule length_replicate, rule nth_replicate)
  have h: "i_type ex_file \<noteq> T_DEV" "(100::nat) < 2 ^ 32" "i_size ex_file < 2 ^ 32"
    by (simp_all add: ex_file_def T_DEV_def)
  have c: "wclamp 1000 100 = 100" by (simp add: wclamp_def MAXFILE_def BSIZE_def)
  have sz: "i_size ex_file = 1000" "i_inum ex_file = 7" by (simp_all add: ex_file_def)
  have pre: "1000 \<le> i_size ex_file \<and> 1000 + 100 < (2::nat) ^ 32 \<and> i_size ex_file \<le> MAXFILE * BSIZE
   \<and> wf_file ex_file ex_disk \<and> wclamp 1000 100 \<le> length xs
   \<and> 1000 mod BSIZE + wclamp 1000 100 \<le> 2 * BSIZE
   \<and> 2 + (if i_addrs ex_file NDIRECT = 0 then 1 else 0) \<le> card (free_blocks ex_disk)"
    unfolding c free_blocks_ex sz lx using wf_ex by (simp add: MAXFILE_def BSIZE_def)
  have m: "mapped ex_file ex_disk (999 div BSIZE)" "\<not> mapped ex_file ex_disk 2"
    by (simp_all add: mapped_def blk_of_def ex_file_def MAXFILE_def NDIRECT_def BSIZE_def)
  have o: "fbyte ex_file ex_disk 999 = CHR ''b''"
    by (simp add: fbyte_def blk_of_def ex_file_def ex_disk_def NDIRECT_def BSIZE_def)
  note w = writei_contract[OF h, where off = 1000 and src = xs and q = 2 and s = ex_disk,
      THEN conjunct2, THEN conjunct1, rule_format, OF pre, unfolded c sz]
  from w obtain ip' s' where
    r: "writei ex_file xs 1000 100 ex_disk = Inr (int 100, ip', s')"
      "i_size ip' = (if 0 < (100::nat) \<and> (1000::nat) < 1000 + 100 then 1000 + 100 else 1000)"
      "0 < (100::nat) \<and> (1000::nat) < 1000 + 100 \<longrightarrow>
                dinodes s' 7 =
                  \<lparr>d_type = i_type ip', d_major = i_major ip', d_minor = i_minor ip',
                   d_nlink = i_nlink ip', d_size = 1000 + 100, d_gen = i_gen ip',
                   d_addrs = i_addrs ip'\<rparr>"
      "\<forall>k. 1000 \<le> k \<and> k < 1000 + 100 \<longrightarrow>
                  mapped ip' s' (k div BSIZE) \<and> fbyte ip' s' k = xs ! (k - 1000)"
      "\<forall>k. mapped ex_file ex_disk (k div BSIZE) \<and> (k < 1000 \<or> 1000 + 100 \<le> k) \<longrightarrow>
                  fbyte ip' s' k = fbyte ex_file ex_disk k"
    by (elim exE conjE)
  have a1: "i_size ip' = 1100" using r(2) by simp
  have a2: "d_size (dinodes s' 7) = 1100" using r(3) by simp
  have a3: "mapped ip' s' 2" using r(4)[rule_format, of 1099] by (simp add: BSIZE_def)
  have a4: "fbyte ip' s' 1000 = CHR ''x''" "fbyte ip' s' 1099 = CHR ''x''"
    using r(4)[rule_format, of 1000] r(4)[rule_format, of 1099] nx[of 0] nx[of 99] by simp_all
  have a5: "fbyte ip' s' 999 = CHR ''b''" using r(5)[rule_format, of 999] m(1) o by simp
  from r(1) a1 a2 a3 a4 a5 have first:
    "\<exists>ip' s'. writei ex_file xs 1000 100 ex_disk = Inr (100, ip', s')
         \<and> i_size ip' = 1100 \<and> d_size (dinodes s' 7) = 1100 \<and> mapped ip' s' 2
         \<and> fbyte ip' s' 1000 = CHR ''x'' \<and> fbyte ip' s' 1099 = CHR ''x''
         \<and> fbyte ip' s' 999 = CHR ''b''" by auto
  have h2: "i_type ex_fresh \<noteq> T_DEV" "(80000::nat) < 2 ^ 32" "i_size ex_fresh < 2 ^ 32"
    by (simp_all add: ex_fresh_def T_DEV_def)
  have c2: "wclamp 0 80000 = 71680" by (simp add: wclamp_def MAXFILE_def BSIZE_def)
  have sz2: "i_size ex_fresh = 0" by (simp add: ex_fresh_def)
  have ad: "i_addrs ex_fresh NDIRECT = 0" by (simp add: ex_fresh_def)
  have pre2: "0 \<le> i_size ex_fresh \<and> 0 + 80000 < (2::nat) ^ 32 \<and> i_size ex_fresh \<le> MAXFILE * BSIZE
   \<and> wf_file ex_fresh ex_disk \<and> wclamp 0 80000 \<le> length as
   \<and> 0 mod BSIZE + wclamp 0 80000 \<le> 140 * BSIZE
   \<and> 140 + (if i_addrs ex_fresh NDIRECT = 0 then 1 else 0) \<le> card (free_blocks ex_disk)"
    unfolding c2 free_blocks_ex sz2 la ad using wf_fresh_ex by (simp add: MAXFILE_def BSIZE_def)
  note w2 = writei_contract[OF h2, where off = 0 and src = as and q = 140 and s = ex_disk,
      THEN conjunct2, THEN conjunct1, rule_format, OF pre2, unfolded c2 sz2]
  from w2 obtain fp' t' where
    r2: "writei ex_fresh as 0 80000 ex_disk = Inr (int 71680, fp', t')"
      "i_size fp' = (if 0 < (71680::nat) \<and> (0::nat) < 0 + 71680 then 0 + 71680 else 0)"
      "\<forall>k. 0 \<le> k \<and> k < 0 + 71680 \<longrightarrow>
                  mapped fp' t' (k div BSIZE) \<and> fbyte fp' t' k = as ! (k - 0)"
    by (elim exE conjE)
  have b1: "i_size fp' = 71680" using r2(2) by simp
  have b2: "mapped fp' t' 139" "fbyte fp' t' 71679 = CHR ''A''"
    using r2(3)[rule_format, of 71679] na[of 71679] by (simp_all add: BSIZE_def)
  from r2(1) b1 b2 have second:
    "\<exists>ip' s'. writei ex_fresh as 0 80000 ex_disk = Inr (71680, ip', s')
         \<and> i_size ip' = 71680 \<and> mapped ip' s' 139 \<and> fbyte ip' s' 71679 = CHR ''A''" by auto
  from h pre m(2) first h2 pre2 second have
    "i_type ex_file \<noteq> T_DEV \<and> (100::nat) < 2 ^ 32 \<and> i_size ex_file < 2 ^ 32
   \<and> 1000 \<le> i_size ex_file \<and> 1000 + 100 < (2::nat) ^ 32 \<and> i_size ex_file \<le> MAXFILE * BSIZE
   \<and> wf_file ex_file ex_disk \<and> wclamp 1000 100 \<le> length xs
   \<and> 1000 mod BSIZE + wclamp 1000 100 \<le> 2 * BSIZE
   \<and> 2 + (if i_addrs ex_file NDIRECT = 0 then 1 else 0) \<le> card (free_blocks ex_disk)
   \<and> \<not> mapped ex_file ex_disk 2
   \<and> (\<exists>ip' s'. writei ex_file xs 1000 100 ex_disk = Inr (100, ip', s')
         \<and> i_size ip' = 1100 \<and> d_size (dinodes s' 7) = 1100 \<and> mapped ip' s' 2
         \<and> fbyte ip' s' 1000 = CHR ''x'' \<and> fbyte ip' s' 1099 = CHR ''x''
         \<and> fbyte ip' s' 999 = CHR ''b'')
   \<and> i_type ex_fresh \<noteq> T_DEV \<and> (80000::nat) < 2 ^ 32 \<and> i_size ex_fresh < 2 ^ 32
   \<and> 0 \<le> i_size ex_fresh \<and> 0 + 80000 < (2::nat) ^ 32 \<and> i_size ex_fresh \<le> MAXFILE * BSIZE
   \<and> wf_file ex_fresh ex_disk \<and> wclamp 0 80000 \<le> length as
   \<and> 0 mod BSIZE + wclamp 0 80000 \<le> 140 * BSIZE
   \<and> 140 + (if i_addrs ex_fresh NDIRECT = 0 then 1 else 0) \<le> card (free_blocks ex_disk)
   \<and> (\<exists>ip' s'. writei ex_fresh as 0 80000 ex_disk = Inr (71680, ip', s')
         \<and> i_size ip' = 71680 \<and> mapped ip' s' 139 \<and> fbyte ip' s' 71679 = CHR ''A'')"
    by blast
  then show ?thesis unfolding xs_def as_def .
qed

text \<open>
  Without that room the call does not return the clamped count: on the disk with no
  free block, the write of five bytes to the empty file ends in the panic of
  \<^verbatim>\<open>balloc\<close>.
\<close>

theorem writei_full_disk:
  "writei ex_fresh ''hello'' 0 5 ex_full = Inl (Panicked ''balloc: out of blocks'')"
proof -
  have f: "\<forall>r. bitmap ex_full r" by (simp add: ex_full_def)
  have bm: "bmap ex_fresh 0 ex_full = Inl (Panicked ''balloc: out of blocks'')"
    by (simp add: bmap_def balloc_full[OF f] panic_def ex_fresh_def NDIRECT_def)
  have lp: "writei_loop 0 5 0 ''hello'' ex_fresh ex_full = Inl (Panicked ''balloc: out of blocks'')"
    by (subst writei_loop.simps) (simp add: bm)
  have ty: "i_type ex_fresh \<noteq> T_DEV" and sz: "i_size ex_fresh = 0"
    by (simp_all add: ex_fresh_def T_DEV_def)
  show ?thesis
    unfolding writei_def using ty sz by (simp add: lp MAXFILE_def BSIZE_def)
qed

subsection \<open>The last reference: iput, itrunc and the delayed bfree\<close>

lemma bfree_list_ok:
  "distinct bs \<Longrightarrow> (\<forall>b\<in>set bs. bitmap s b) \<Longrightarrow>
     bfree_list bs s =
       Inr (s\<lparr>blocks := (\<lambda>b. if b \<in> set bs then (\<lambda>_. NUL) else blocks s b),
              bitmap := (\<lambda>b. bitmap s b \<and> b \<notin> set bs)\<rparr>)"
proof (induction bs arbitrary: s)
  case Nil
  show ?case by simp
next
  case (Cons a bs)
  let ?s1 = "(bzero a s)\<lparr>bitmap := (bitmap (bzero a s))(a := False)\<rparr>"
  from Cons.prems have a: "bitmap s a" and d: "distinct bs" "a \<notin> set bs"
    and r: "\<forall>b\<in>set bs. bitmap s b" by simp_all
  have bf: "bfree a s = Inr ?s1" using a by (simp add: bfree_def bzero_def Let_def)
  have r1: "\<forall>b\<in>set bs. bitmap ?s1 b" using r d(2) by (auto simp: bzero_def)
  have "bfree_list (a # bs) s = bfree_list bs ?s1" by (simp add: bf)
  also note Cons.IH[OF d(1) r1]
  also have "?s1\<lparr>blocks := (\<lambda>b. if b \<in> set bs then (\<lambda>_. NUL) else blocks ?s1 b),
              bitmap := (\<lambda>b. bitmap ?s1 b \<and> b \<notin> set bs)\<rparr>
      = s\<lparr>blocks := (\<lambda>b. if b \<in> set (a # bs) then (\<lambda>_. NUL) else blocks s b),
              bitmap := (\<lambda>b. bitmap s b \<and> b \<notin> set (a # bs))\<rparr>"
    by (auto simp: bzero_def fun_eq_iff)
  finally show ?case .
qed

lemma file_blocks_blk_of:
  "file_blocks ip s =
     filter (\<lambda>b. b \<noteq> 0) (map (blk_of ip s) [0..<MAXFILE])
     @ (if i_addrs ip NDIRECT \<noteq> 0 then [i_addrs ip NDIRECT] else [])"
proof -
  have sp: "[0..<MAXFILE] = [0..<NDIRECT] @ [NDIRECT..<NDIRECT + NINDIRECT]"
    by (simp add: MAXFILE_def NDIRECT_def NINDIRECT_def upt_add_eq_append[of 0 12 128, simplified])
  have d: "map (blk_of ip s) [0..<NDIRECT] = map (i_addrs ip) [0..<NDIRECT]"
    by (rule map_cong) (auto simp: blk_of_def)
  have i: "map (blk_of ip s) [NDIRECT..<NDIRECT + NINDIRECT] =
      map (\<lambda>j. if i_addrs ip NDIRECT = 0 then 0 else rd_uint (blocks s (i_addrs ip NDIRECT)) j)
        [0..<NINDIRECT]"
  proof (rule nth_equalityI)
    show "length (map (blk_of ip s) [NDIRECT..<NDIRECT + NINDIRECT]) =
      length (map (\<lambda>j. if i_addrs ip NDIRECT = 0 then 0 else rd_uint (blocks s (i_addrs ip NDIRECT)) j)
        [0..<NINDIRECT])" by simp
  next
    fix k assume "k < length (map (blk_of ip s) [NDIRECT..<NDIRECT + NINDIRECT])"
    then have k: "k < NINDIRECT" by simp
    then show "map (blk_of ip s) [NDIRECT..<NDIRECT + NINDIRECT] ! k =
      map (\<lambda>j. if i_addrs ip NDIRECT = 0 then 0 else rd_uint (blocks s (i_addrs ip NDIRECT)) j)
        [0..<NINDIRECT] ! k"
      by (simp add: blk_of_def)
  qed
  show ?thesis
  proof (cases "i_addrs ip NDIRECT = 0")
    case True
    have "filter (\<lambda>b. b \<noteq> 0) (map (\<lambda>j. 0::nat) [0..<NINDIRECT]) = []" by (simp add: filter_empty_conv)
    with True show ?thesis unfolding file_blocks_def sp map_append filter_append d i by simp
  next
    case False
    then show ?thesis unfolding file_blocks_def sp map_append filter_append d i by simp
  qed
qed

lemma wf_file_blocks:
  assumes wf: "wf_file ip s"
  shows "distinct (file_blocks ip s)" and "\<forall>b\<in>set (file_blocks ip s). bitmap s b"
proof -
  let ?f = "blk_of ip s"
  have inj: "inj_on ?f (set (filter (\<lambda>bn. ?f bn \<noteq> 0) [0..<MAXFILE]))"
  proof (rule inj_onI)
    fix x y assume "x \<in> set (filter (\<lambda>bn. ?f bn \<noteq> 0) [0..<MAXFILE])"
      "y \<in> set (filter (\<lambda>bn. ?f bn \<noteq> 0) [0..<MAXFILE])" "?f x = ?f y"
    then have "x < MAXFILE" "y < MAXFILE" "?f x \<noteq> 0" "?f x = ?f y" by simp_all
    with wf show "x = y" unfolding wf_file_def by blast
  qed
  have fm: "filter (\<lambda>b. b \<noteq> 0) (map ?f [0..<MAXFILE]) = map ?f (filter (\<lambda>bn. ?f bn \<noteq> 0) [0..<MAXFILE])"
    by (simp add: filter_map comp_def)
  have d1: "distinct (filter (\<lambda>b. b \<noteq> 0) (map ?f [0..<MAXFILE]))"
    unfolding fm distinct_map using inj by (intro conjI) simp_all
  have ni: "i_addrs ip NDIRECT \<notin> set (filter (\<lambda>b. b \<noteq> 0) (map ?f [0..<MAXFILE]))"
  proof
    assume "i_addrs ip NDIRECT \<in> set (filter (\<lambda>b. b \<noteq> 0) (map ?f [0..<MAXFILE]))"
    then obtain bn where "bn < MAXFILE" "?f bn \<noteq> 0" "?f bn = i_addrs ip NDIRECT" by auto
    with wf show False unfolding wf_file_def by blast
  qed
  show "distinct (file_blocks ip s)" unfolding file_blocks_blk_of using d1 ni by auto
  have "\<forall>b\<in>set (filter (\<lambda>b. b \<noteq> 0) (map ?f [0..<MAXFILE])). bitmap s b"
  proof
    fix b assume "b \<in> set (filter (\<lambda>b. b \<noteq> 0) (map ?f [0..<MAXFILE]))"
    then obtain bn where "bn < MAXFILE" "?f bn \<noteq> 0" "?f bn = b" by auto
    with wf show "bitmap s b" unfolding wf_file_def by blast
  qed
  moreover have "i_addrs ip NDIRECT \<noteq> 0 \<longrightarrow> bitmap s (i_addrs ip NDIRECT)"
    using wf unfolding wf_file_def by blast
  ultimately show "\<forall>b\<in>set (file_blocks ip s). bitmap s b" unfolding file_blocks_blk_of by auto
qed


lemma iput_teardown:
  assumes "i_ref ip = 1" and "i_nlink ip = 0"
    and "i_flags ip \<inter> {I_BUSYR, I_BUSYW} = {}" and "I_VALID \<in> i_flags ip"
  shows "iput ip s =
     Inr (ip\<lparr>i_ref := 0, i_addrs := zero_addrs (i_addrs ip), i_size := 0, i_type := 0,
              i_major := 0, i_minor := 0, i_gen := (i_gen ip + 1) mod 2 ^ 32\<rparr>,
          s\<lparr>delayed := delayed s @ file_blocks ip s,
            dinodes := (dinodes s)(i_inum ip :=
              \<lparr>d_type = 0, d_major = 0, d_minor = 0, d_nlink = 0, d_size = 0,
               d_gen = (i_gen ip + 1) mod 2 ^ 32, d_addrs = zero_addrs (i_addrs ip)\<rparr>)\<rparr>)"
proof -
  have fl: "i_flags ip \<union> {I_BUSYR, I_BUSYW} - {I_BUSYR, I_BUSYW} = i_flags ip"
    using assms(3) by auto
  show ?thesis
    using assms fl by (simp add: iput_def Let_def itrunc_eq iupdate_def file_blocks_def)
qed

lemma rcu_gc_frees:
  assumes d: "distinct (ds @ fb)" and b: "\<forall>b\<in>set (ds @ fb). bitmap s b"
    and s': "delayed s' = ds @ fb" "bitmap s' = bitmap s" "blocks s' = blocks s"
  shows "\<exists>t. rcu_gc s' = Inr t \<and> delayed t = []
     \<and> (\<forall>b\<in>set fb. \<not> bitmap t b \<and> blocks t b = (\<lambda>_. NUL))
     \<and> (\<forall>b. b \<notin> set (ds @ fb) \<longrightarrow> bitmap t b = bitmap s b \<and> blocks t b = blocks s b)"
proof -
  let ?u = "s'\<lparr>delayed := []\<rparr>"
  have b': "\<forall>b\<in>set (ds @ fb). bitmap ?u b" using b s'(2) by simp
  note r = bfree_list_ok[OF d b']
  show ?thesis unfolding rcu_gc_def s'(1) r using s'(2,3) by simp
qed

lemma fb_ex: "file_blocks ex_file ex_disk = [40, 41]"
  by (simp add: file_blocks_def ex_file_def NDIRECT_def upt_rec numeral_nat)

text \<open>
  Claim C1. For an in-memory inode with \<open>ref \<ge> 1\<close> that is unlocked (and valid, as
  every inode handed out by \<^verbatim>\<open>iget\<close> is), \<^verbatim>\<open>iput\<close> returns with \<open>ref\<close> decremented; and
  when the decrement reaches zero while \<open>nlink = 0\<close>, the contents are truncated (every
  entry of \<open>addrs\<close> and the size are zero), the type is 0, \<open>gen\<close> is incremented (as a
  \<^verbatim>\<open>uint\<close>), and the on-disk inode holds the result, as \<^verbatim>\<open>iupdate\<close> writes it. The
  blocks of the file are not free yet when \<^verbatim>\<open>iput\<close> returns: bitmap and data are
  untouched, and each block has been handed to \<^verbatim>\<open>rcu_delayed2\<close> with \<^verbatim>\<open>bfree\<close>. They are
  free once the delayed calls have been made: in a file system that fits together,
  \<open>rcu_gc\<close> returns, and then every block of the file is zeroed and its bit in the
  bitmap is clear, and the blocks that had no call pending are as before.
\<close>

theorem iput_last_drop:
  assumes "1 \<le> i_ref ip" and "i_flags ip \<inter> {I_BUSYR, I_BUSYW} = {}" and "I_VALID \<in> i_flags ip"
  shows "\<exists>ip' s'. iput ip s = Inr (ip', s') \<and> i_ref ip' = i_ref ip - 1 \<and>
     (i_ref ip = 1 \<and> i_nlink ip = 0 \<longrightarrow>
        i_size ip' = 0 \<and> (\<forall>k\<le>NDIRECT. i_addrs ip' k = 0)
        \<and> delayed s' = delayed s @ file_blocks ip s
        \<and> bitmap s' = bitmap s \<and> blocks s' = blocks s
        \<and> i_type ip' = 0 \<and> i_gen ip' = (i_gen ip + 1) mod 2 ^ 32
        \<and> dinodes s' (i_inum ip) =
            \<lparr>d_type = 0, d_major = 0, d_minor = 0, d_nlink = 0, d_size = 0,
             d_gen = (i_gen ip + 1) mod 2 ^ 32, d_addrs = i_addrs ip'\<rparr>
        \<and> (wf_file ip s \<and> pending_ok ip s \<longrightarrow>
             (\<exists>t. rcu_gc s' = Inr t \<and> delayed t = []
                \<and> (\<forall>b\<in>set (file_blocks ip s). \<not> bitmap t b \<and> blocks t b = (\<lambda>_. NUL))
                \<and> (\<forall>b. b \<notin> set (delayed s @ file_blocks ip s) \<longrightarrow>
                       bitmap t b = bitmap s b \<and> blocks t b = blocks s b))))"
proof (cases "i_ref ip = 1 \<and> i_nlink ip = 0")
  case False
  with assms(1) have "1 < i_ref ip \<or> (i_ref ip = 1 \<and> i_nlink ip \<noteq> 0)" by auto
  then have "iput ip s = Inr (ip\<lparr>i_ref := i_ref ip - 1\<rparr>, s)"
    by (auto simp: iput_def Let_def)
  with False show ?thesis by auto
next
  case True
  let ?ip = "ip\<lparr>i_ref := 0, i_addrs := zero_addrs (i_addrs ip), i_size := 0, i_type := 0,
              i_major := 0, i_minor := 0, i_gen := (i_gen ip + 1) mod 2 ^ 32\<rparr>"
  let ?s = "s\<lparr>delayed := delayed s @ file_blocks ip s,
            dinodes := (dinodes s)(i_inum ip :=
              \<lparr>d_type = 0, d_major = 0, d_minor = 0, d_nlink = 0, d_size = 0,
               d_gen = (i_gen ip + 1) mod 2 ^ 32, d_addrs = zero_addrs (i_addrs ip)\<rparr>)\<rparr>"
  from True have r1: "i_ref ip = 1" and n0: "i_nlink ip = 0" by simp_all
  note run = iput_teardown[OF r1 n0 assms(2,3), of s]
  have gc: "wf_file ip s \<and> pending_ok ip s \<longrightarrow>
             (\<exists>t. rcu_gc ?s = Inr t \<and> delayed t = []
                \<and> (\<forall>b\<in>set (file_blocks ip s). \<not> bitmap t b \<and> blocks t b = (\<lambda>_. NUL))
                \<and> (\<forall>b. b \<notin> set (delayed s @ file_blocks ip s) \<longrightarrow>
                       bitmap t b = bitmap s b \<and> blocks t b = blocks s b))"
  proof
    assume h: "wf_file ip s \<and> pending_ok ip s"
    then have wf: "wf_file ip s" and p: "pending_ok ip s" by simp_all
    note fb = wf_file_blocks[OF wf]
    have d: "distinct (delayed s @ file_blocks ip s)"
      using p fb(1) unfolding pending_ok_def by auto
    have b: "\<forall>b\<in>set (delayed s @ file_blocks ip s). bitmap s b"
      using p fb(2) unfolding pending_ok_def by auto
    show "\<exists>t. rcu_gc ?s = Inr t \<and> delayed t = []
                \<and> (\<forall>b\<in>set (file_blocks ip s). \<not> bitmap t b \<and> blocks t b = (\<lambda>_. NUL))
                \<and> (\<forall>b. b \<notin> set (delayed s @ file_blocks ip s) \<longrightarrow>
                       bitmap t b = bitmap s b \<and> blocks t b = blocks s b)"
      by (rule rcu_gc_frees[OF d b]) simp_all
  qed
  have "iput ip s = Inr (?ip, ?s) \<and> i_ref ?ip = i_ref ip - 1 \<and>
     (i_ref ip = 1 \<and> i_nlink ip = 0 \<longrightarrow>
        i_size ?ip = 0 \<and> (\<forall>k\<le>NDIRECT. i_addrs ?ip k = 0)
        \<and> delayed ?s = delayed s @ file_blocks ip s
        \<and> bitmap ?s = bitmap s \<and> blocks ?s = blocks s
        \<and> i_type ?ip = 0 \<and> i_gen ?ip = (i_gen ip + 1) mod 2 ^ 32
        \<and> dinodes ?s (i_inum ip) =
            \<lparr>d_type = 0, d_major = 0, d_minor = 0, d_nlink = 0, d_size = 0,
             d_gen = (i_gen ip + 1) mod 2 ^ 32, d_addrs = i_addrs ?ip\<rparr>
        \<and> (wf_file ip s \<and> pending_ok ip s \<longrightarrow>
             (\<exists>t. rcu_gc ?s = Inr t \<and> delayed t = []
                \<and> (\<forall>b\<in>set (file_blocks ip s). \<not> bitmap t b \<and> blocks t b = (\<lambda>_. NUL))
                \<and> (\<forall>b. b \<notin> set (delayed s @ file_blocks ip s) \<longrightarrow>
                       bitmap t b = bitmap s b \<and> blocks t b = blocks s b))))"
    using run r1 gc by (simp add: zero_addrs_def)
  then show ?thesis by blast
qed

theorem iput_last_drop_witness:
  "1 \<le> i_ref ex_file \<and> i_flags ex_file \<inter> {I_BUSYR, I_BUSYW} = {} \<and> I_VALID \<in> i_flags ex_file
   \<and> i_ref ex_file = 1 \<and> i_nlink ex_file = 0 \<and> wf_file ex_file ex_disk
   \<and> pending_ok ex_file ex_disk
   \<and> (\<exists>ip' s' t. iput ex_file ex_disk = Inr (ip', s') \<and> i_ref ip' = 0 \<and> i_size ip' = 0
         \<and> i_addrs ip' 0 = 0 \<and> i_addrs ip' 1 = 0 \<and> delayed s' = [40, 41]
         \<and> i_type ip' = 0 \<and> i_gen ip' = 5 \<and> d_type (dinodes s' 7) = 0
         \<and> rcu_gc s' = Inr t \<and> \<not> bitmap t 40 \<and> \<not> bitmap t 41 \<and> bitmap t 39
         \<and> blocks t 40 0 = NUL \<and> blocks t 41 0 = NUL)"
proof -
  have h: "1 \<le> i_ref ex_file" "i_flags ex_file \<inter> {I_BUSYR, I_BUSYW} = {}"
    "I_VALID \<in> i_flags ex_file"
    by (simp_all add: ex_file_def)
  have p: "pending_ok ex_file ex_disk" by (simp add: pending_ok_def ex_disk_def)
  from iput_last_drop[OF h, of ex_disk] obtain ip' s' where
    r: "iput ex_file ex_disk = Inr (ip', s')" "i_ref ip' = i_ref ex_file - 1"
      "i_ref ex_file = 1 \<and> i_nlink ex_file = 0 \<longrightarrow>
        i_size ip' = 0 \<and> (\<forall>k\<le>NDIRECT. i_addrs ip' k = 0)
        \<and> delayed s' = delayed ex_disk @ file_blocks ex_file ex_disk
        \<and> bitmap s' = bitmap ex_disk \<and> blocks s' = blocks ex_disk
        \<and> i_type ip' = 0 \<and> i_gen ip' = (i_gen ex_file + 1) mod 2 ^ 32
        \<and> dinodes s' (i_inum ex_file) =
            \<lparr>d_type = 0, d_major = 0, d_minor = 0, d_nlink = 0, d_size = 0,
             d_gen = (i_gen ex_file + 1) mod 2 ^ 32, d_addrs = i_addrs ip'\<rparr>
        \<and> (wf_file ex_file ex_disk \<and> pending_ok ex_file ex_disk \<longrightarrow>
             (\<exists>t. rcu_gc s' = Inr t \<and> delayed t = []
                \<and> (\<forall>b\<in>set (file_blocks ex_file ex_disk). \<not> bitmap t b \<and> blocks t b = (\<lambda>_. NUL))
                \<and> (\<forall>b. b \<notin> set (delayed ex_disk @ file_blocks ex_file ex_disk) \<longrightarrow>
                       bitmap t b = bitmap ex_disk b \<and> blocks t b = blocks ex_disk b)))"
    by blast
  have c: "i_ref ex_file = 1 \<and> i_nlink ex_file = 0" by (simp add: ex_file_def)
  note t = r(3)[rule_format, OF c]
  note t1 = t[THEN conjunct1] and t2 = t[THEN conjunct2, THEN conjunct1]
    and t3 = t[THEN conjunct2, THEN conjunct2, THEN conjunct1]
    and t6 = t[THEN conjunct2, THEN conjunct2, THEN conjunct2, THEN conjunct2, THEN conjunct2,
               THEN conjunct1]
    and t7 = t[THEN conjunct2, THEN conjunct2, THEN conjunct2, THEN conjunct2, THEN conjunct2,
               THEN conjunct2, THEN conjunct1]
    and t8 = t[THEN conjunct2, THEN conjunct2, THEN conjunct2, THEN conjunct2, THEN conjunct2,
               THEN conjunct2, THEN conjunct2, THEN conjunct1]
    and t9 = t[THEN conjunct2, THEN conjunct2, THEN conjunct2, THEN conjunct2, THEN conjunct2,
               THEN conjunct2, THEN conjunct2, THEN conjunct2]
  from t9 wf_ex p obtain t where
    g: "rcu_gc s' = Inr t" "\<forall>b\<in>set (file_blocks ex_file ex_disk). \<not> bitmap t b \<and> blocks t b = (\<lambda>_. NUL)"
      "\<forall>b. b \<notin> set (delayed ex_disk @ file_blocks ex_file ex_disk) \<longrightarrow>
                       bitmap t b = bitmap ex_disk b \<and> blocks t b = blocks ex_disk b"
    by blast
  have a: "i_addrs ip' 0 = 0" "i_addrs ip' 1 = 0"
    using t2[rule_format, of 0] t2[rule_format, of 1] by (simp_all add: NDIRECT_def)
  have g5: "i_gen ip' = 5" using t7 by (simp add: ex_file_def)
  have d: "delayed s' = [40, 41]" using t3 fb_ex by (simp add: ex_disk_def)
  have ty: "d_type (dinodes s' 7) = 0" using t8 by (simp add: ex_file_def)
  have r0: "i_ref ip' = 0" using r(2) c by simp
  from g(2) have f: "\<not> bitmap t 40" "\<not> bitmap t 41" "blocks t 40 0 = NUL" "blocks t 41 0 = NUL"
    unfolding fb_ex by simp_all
  from g(3) have k: "bitmap t 39" unfolding fb_ex by (simp add: ex_disk_def)
  from r(1) r0 t1 a d t6 g5 ty g(1) f k have
    "iput ex_file ex_disk = Inr (ip', s') \<and> i_ref ip' = 0 \<and> i_size ip' = 0
         \<and> i_addrs ip' 0 = 0 \<and> i_addrs ip' 1 = 0 \<and> delayed s' = [40, 41]
         \<and> i_type ip' = 0 \<and> i_gen ip' = 5 \<and> d_type (dinodes s' 7) = 0
         \<and> rcu_gc s' = Inr t \<and> \<not> bitmap t 40 \<and> \<not> bitmap t 41 \<and> bitmap t 39
         \<and> blocks t 40 0 = NUL \<and> blocks t 41 0 = NUL" by simp
  then have "\<exists>ip' s' t. iput ex_file ex_disk = Inr (ip', s') \<and> i_ref ip' = 0 \<and> i_size ip' = 0
         \<and> i_addrs ip' 0 = 0 \<and> i_addrs ip' 1 = 0 \<and> delayed s' = [40, 41]
         \<and> i_type ip' = 0 \<and> i_gen ip' = 5 \<and> d_type (dinodes s' 7) = 0
         \<and> rcu_gc s' = Inr t \<and> \<not> bitmap t 40 \<and> \<not> bitmap t 41 \<and> bitmap t 39
         \<and> blocks t 40 0 = NUL \<and> blocks t 41 0 = NUL" by blast
  with h c wf_ex p show ?thesis by simp
qed

text \<open>
  As the claim has it the blocks are freed by \<^verbatim>\<open>iput\<close>. They are not: after the last
  drop of the file of 1000 bytes, blocks 40 and 41 are only in the list of the delayed
  calls; their bits are still set and their data is still there.
\<close>

theorem iput_blocks_still_in_use:
  "iput ex_file ex_disk = Inr (ex_gone, ex_after)
   \<and> bitmap ex_after 40 \<and> bitmap ex_after 41
   \<and> blocks ex_after 40 0 = CHR ''a'' \<and> blocks ex_after 41 0 = CHR ''b''"
proof -
  have h: "i_ref ex_file = 1" "i_nlink ex_file = 0" "i_flags ex_file \<inter> {I_BUSYR, I_BUSYW} = {}"
    "I_VALID \<in> i_flags ex_file"
    by (simp_all add: ex_file_def)
  have z: "zero_addrs (i_addrs ex_file) = (\<lambda>_. 0)"
    by (auto simp: zero_addrs_def ex_file_def fun_eq_iff NDIRECT_def)
  have e: "ex_file\<lparr>i_ref := 0, i_addrs := \<lambda>_. 0, i_size := 0, i_type := 0,
              i_major := 0, i_minor := 0, i_gen := 5\<rparr> = ex_gone"
    by (simp add: ex_file_def ex_gone_def)
  have i: "i_inum ex_file = 7" "(i_gen ex_file + 1) mod 2 ^ 32 = 5" by (simp_all add: ex_file_def)
  have d: "delayed ex_disk = []" by (simp add: ex_disk_def)
  show ?thesis
    unfolding iput_teardown[OF h] z e fb_ex i d ex_after_def
    by (simp add: ex_disk_def NDIRECT_def)
qed

section \<open>Directories, the inode cache and ialloc\<close>

subsection \<open>Directory records\<close>

text \<open>
  \<^verbatim>\<open>struct dirent\<close> is declared in the absent \<^verbatim>\<open>fs.h\<close>. Modelled from the spec: a
  record is \<open>{ inum: u16, name: char[DIRSIZ] }\<close>, 16 bytes, integers little-endian.
  \<open>de_inum d o\<close> and \<open>de_name d o\<close> read the record at byte \<open>o\<close> of the data \<open>d\<close>.
\<close>

definition DESIZE :: nat where "DESIZE = 16"

definition de_inum :: "(nat \<Rightarrow> byte) \<Rightarrow> nat \<Rightarrow> nat" where
  "de_inum d o' = of_char (d o') + 256 * of_char (d (o' + 1))"

definition de_name :: "(nat \<Rightarrow> byte) \<Rightarrow> nat \<Rightarrow> byte list" where
  "de_name d o' = map (\<lambda>i. d (o' + 2 + i)) [0..<DIRSIZ]"

text \<open>
  \<^verbatim>\<open>strncmp\<close> and \<^verbatim>\<open>strncpy\<close> are in the absent \<^verbatim>\<open>string.c\<close>. Modelled from the
  spec: \<^verbatim>\<open>namecmp\<close> is the bounded string compare over \<open>DIRSIZ\<close> bytes, which stops at
  a \<open>NUL\<close>; a name is stored NUL-padded when shorter than \<open>DIRSIZ\<close> and cut to \<open>DIRSIZ\<close>
  bytes otherwise. A string that ends before the bound reads as \<open>NUL\<close> from there on.
\<close>

fun strncmp :: "byte list \<Rightarrow> byte list \<Rightarrow> nat \<Rightarrow> int" where
  "strncmp p q 0 = 0"
| "strncmp p q (Suc n) =
     (let a = (case p of [] \<Rightarrow> NUL | c # _ \<Rightarrow> c);
          b = (case q of [] \<Rightarrow> NUL | c # _ \<Rightarrow> c)
      in if a \<noteq> NUL \<and> a = b then strncmp (tl p) (tl q) n
         else int (of_char a) - int (of_char b))"

definition namecmp :: "byte list \<Rightarrow> byte list \<Rightarrow> int" where
  "namecmp s t = strncmp s t DIRSIZ"

fun strncpy :: "byte list \<Rightarrow> nat \<Rightarrow> byte list" where
  "strncpy t 0 = []"
| "strncpy t (Suc n) =
     (case t of
        [] \<Rightarrow> NUL # replicate n NUL
      | c # cs \<Rightarrow> if c = NUL then NUL # replicate n NUL else c # strncpy cs n)"

text \<open>The bytes of the local \<^verbatim>\<open>struct dirent de\<close> after \<^verbatim>\<open>strncpy\<close> and \<^verbatim>\<open>de.inum = inum\<close>.\<close>

definition dirent_bytes :: "nat \<Rightarrow> byte list \<Rightarrow> byte list" where
  "dirent_bytes inum name = [char_of inum, char_of (inum div 256)] @ strncpy name DIRSIZ"

subsection \<open>dirlookup: the scan\<close>

text \<open>The inner loop of \<^verbatim>\<open>dirlookup\<close>; \<open>de\<close> is the byte offset of the record in the block.\<close>

function dirlookup_block :: "(nat \<Rightarrow> byte) \<Rightarrow> byte list \<Rightarrow> nat \<Rightarrow> (nat \<times> nat) option" where
  "dirlookup_block d name de =
     (if de < BSIZE then
        (if de_inum d de = 0 then dirlookup_block d name (de + DESIZE)
         else if namecmp name (de_name d de) = 0 then Some (de, de_inum d de)
         else dirlookup_block d name (de + DESIZE))
      else None)"
  by pat_completeness auto
termination
  by (relation "measure (\<lambda>(d, name, de). BSIZE - de)") (auto simp: DESIZE_def)

text \<open>
  The outer loop. The result is the byte offset and the inode number of the match,
  if any. \<^verbatim>\<open>off += BSIZE\<close> cannot wrap: \<^verbatim>\<open>bmap\<close> has returned.
\<close>

function dirlookup_loop ::
  "nat \<Rightarrow> inode \<Rightarrow> byte list \<Rightarrow> kstate \<Rightarrow> fault + ((nat \<times> nat) option \<times> inode \<times> kstate)" where
  "dirlookup_loop off dp name s =
     (if off < i_size dp then
        (case bmap dp (off div BSIZE) s of
           Inl e \<Rightarrow> Inl e
         | Inr (addr, dp', s') \<Rightarrow>
             (case dirlookup_block (blocks s' addr) name 0 of
                Some (de, inum) \<Rightarrow> Inr (Some (off + de, inum), dp', s')
              | None \<Rightarrow> dirlookup_loop (off + BSIZE) dp' name s'))
      else Inr (None, dp, s))"
  by pat_completeness auto
termination
proof (relation "measure (\<lambda>(off, dp, name, s). MAXFILE * BSIZE - off)")
  show "wf (measure (\<lambda>(off, dp, name, s). MAXFILE * BSIZE - off))" by simp
next
  fix off dp name s x2 x y xa ya
  assume "bmap dp (off div BSIZE) s = Inr x2"
  then have "off div BSIZE < MAXFILE" by (rule bmap_in_range)
  then have "off < MAXFILE * BSIZE" by (simp add: BSIZE_def div_less_iff_less_mult)
  then show "((off + BSIZE, xa, name, ya), off, dp, name, s)
       \<in> measure (\<lambda>(off, dp, name, s). MAXFILE * BSIZE - off)"
    by (simp add: BSIZE_def)
qed

subsection \<open>readi leaves the size alone\<close>

lemma readi_loop_fields:
  "readi_loop tot n off dst ip s = Inr (dst', ip', s') \<Longrightarrow>
     ip' = ip\<lparr>i_addrs := i_addrs ip'\<rparr> \<and> s' = s\<lparr>bitmap := bitmap s', blocks := blocks s'\<rparr>"
proof (induction tot n off dst ip s rule: readi_loop.induct)
  case (1 tot n off dst ip s)
  show ?case
  proof (cases "tot < n")
    case False
    with "1.prems" have "ip' = ip" "s' = s" by (subst (asm) readi_loop.simps, simp)+
    then show ?thesis by simp
  next
    case True
    let ?m = "min (n - tot) (BSIZE - off mod BSIZE)"
    from "1.prems" True obtain addr ip1 s1 where
      bm: "bmap ip (off div BSIZE) s = Inr (addr, ip1, s1)" and
      rec: "readi_loop (tot + ?m) n (off + ?m)
              (dst @ map (\<lambda>i. blocks s1 addr (off mod BSIZE + i)) [0..<?m]) ip1 s1 = Inr (dst', ip', s')"
      by (subst (asm) readi_loop.simps) (auto simp: Let_def split: sum.splits)
    note ih = "1.IH"[OF True bm refl refl refl rec]
    note f = bmap_fields[OF bm]
    have e1: "ip' = ip\<lparr>i_addrs := i_addrs ip'\<rparr>"
    proof -
      from f have b1: "ip1 = ip\<lparr>i_addrs := i_addrs ip1\<rparr>" by simp
      have "ip1\<lparr>i_addrs := i_addrs ip'\<rparr> = ip\<lparr>i_addrs := i_addrs ip'\<rparr>"
        by (subst b1) simp
      with ih[THEN conjunct1] show ?thesis by simp
    qed
    have e2: "s' = s\<lparr>bitmap := bitmap s', blocks := blocks s'\<rparr>"
    proof -
      from f have b2: "s1 = s\<lparr>bitmap := bitmap s1, blocks := blocks s1\<rparr>" by simp
      have "s1\<lparr>bitmap := bitmap s', blocks := blocks s'\<rparr>
                 = s\<lparr>bitmap := bitmap s', blocks := blocks s'\<rparr>"
        by (subst b2) simp
      with ih[THEN conjunct2] show ?thesis by simp
    qed
    from e1 e2 show ?thesis by simp
  qed
qed

lemma readi_size: "readi ip off n s = Inr (r, dst, ip', s') \<Longrightarrow> i_size ip' = i_size ip"
proof -
  assume a: "readi ip off n s = Inr (r, dst, ip', s')"
  show ?thesis
  proof (cases "\<exists>n'. readi_loop 0 n' off [] ip s = Inr (dst, ip', s')")
    case True
    then obtain n' where "readi_loop 0 n' off [] ip s = Inr (dst, ip', s')" by blast
    from readi_loop_fields[OF this] have "ip' = ip\<lparr>i_addrs := i_addrs ip'\<rparr>" by simp
    then show ?thesis by (metis inode.select_convs(11) inode.surjective inode.update_convs(12))
  next
    case False
    with a have "ip' = ip"
      by (auto simp: readi_def Let_def split: if_splits option.splits sum.splits)
    then show ?thesis by simp
  qed
qed


subsection \<open>The inode cache\<close>

text \<open>
  The index \<^verbatim>\<open>ins\<close> (\<^verbatim>\<open>nsalloc\<close>, \<^verbatim>\<open>ns_lookup\<close>, \<^verbatim>\<open>ns_insert\<close>, \<^verbatim>\<open>ns_remove\<close>,
  \<^verbatim>\<open>ns_enumerate\<close>) is not among the sources. Modelled from the spec: an associative
  structure keyed by \<open>inum\<close> with lookup, insert (which fails if the key is present),
  remove, and an enumeration that visits the entries and returns the first for which
  the callback returns non-null. Here it is the list of its entries in the order of
  the enumeration.

  The in-memory inodes live in the index, and a \<^verbatim>\<open>struct inode *\<close> that a caller holds
  is the key of its entry: \<open>deref\<close> reads the inode a pointer points to and
  \<open>ns_store\<close> writes it back after the routine at hand has changed it.
\<close>

definition ns_lookup :: "(nat \<times> inode) list \<Rightarrow> nat \<Rightarrow> inode option" where
  "ns_lookup ns k = map_of ns k"

definition ns_insert :: "(nat \<times> inode) list \<Rightarrow> nat \<Rightarrow> inode \<Rightarrow> (nat \<times> inode) list option" where
  "ns_insert ns k v = (if map_of ns k = None then Some (ns @ [(k, v)]) else None)"

definition ns_remove :: "(nat \<times> inode) list \<Rightarrow> nat \<Rightarrow> (nat \<times> inode) list" where
  "ns_remove ns k = filter (\<lambda>(k', v). k' \<noteq> k) ns"

fun ns_enumerate :: "(nat \<times> inode) list \<Rightarrow> (nat \<Rightarrow> inode \<Rightarrow> bool) \<Rightarrow> inode option" where
  "ns_enumerate [] f = None"
| "ns_enumerate ((k, v) # ns) f = (if f k v then Some v else ns_enumerate ns f)"

text \<open>The callback \<^verbatim>\<open>evict\<close>: it returns the entry when its \<open>ref\<close> is 0.\<close>

definition evict :: "nat \<Rightarrow> inode \<Rightarrow> bool" where
  "evict key ip \<longleftrightarrow> i_ref ip = 0"

definition deref :: "nat \<Rightarrow> kstate \<Rightarrow> fault + inode" where
  "deref p s = (case ns_lookup (ins s) p of None \<Rightarrow> Inl BadPointer | Some ip \<Rightarrow> Inr ip)"

fun ns_update :: "nat \<Rightarrow> inode \<Rightarrow> (nat \<times> inode) list \<Rightarrow> (nat \<times> inode) list" where
  "ns_update p ip [] = []"
| "ns_update p ip ((k, v) # ns) = (if k = p then (k, ip) # ns else (k, v) # ns_update p ip ns)"

definition ns_store :: "nat \<Rightarrow> inode \<Rightarrow> kstate \<Rightarrow> kstate" where
  "ns_store p ip s = s\<lparr>ins := ns_update p ip (ins s)\<rparr>"

text \<open>
  The hit path of \<^verbatim>\<open>iget\<close>, for the entry \<open>ip\<close> found under \<open>inum\<close>. With \<open>I_FREE\<close> set
  the source drops the reference again and retries, and with \<open>I_VALID\<close> clear it
  sleeps: for one caller, neither ends.
\<close>

definition iget_hit :: "nat \<Rightarrow> nat \<Rightarrow> inode \<Rightarrow> kstate \<Rightarrow> fault + (nat \<times> kstate)" where
  "iget_hit dev inum ip s =
     (if i_dev ip \<noteq> dev then panic ''iget dev mismatch''
      else
        let ip1 = ip\<lparr>i_ref := i_ref ip + 1\<rparr> in
        if I_FREE \<in> i_flags ip1 then Inl Blocked
        else if I_VALID \<notin> i_flags ip1 then Inl Blocked
        else Inr (inum, ns_store inum ip1 s))"

text \<open>
  \<^verbatim>\<open>iget\<close>. On a miss the victim is marked \<open>I_FREE\<close>, found with \<open>ref = 0\<close> still (there
  is no other caller), and removed; the fresh entry has every field assigned: \<open>dev\<close>,
  \<open>inum\<close>, \<open>ref\<close>, \<open>flags\<close> and \<open>readbusy\<close> at once, the others from the on-disk inode.
  When \<^verbatim>\<open>ns_insert\<close> fails the source retries, and the retry finds the entry.
\<close>

definition iget :: "nat \<Rightarrow> nat \<Rightarrow> kstate \<Rightarrow> fault + (nat \<times> kstate)" where
  "iget dev inum s =
     (case ns_lookup (ins s) inum of
        Some ip \<Rightarrow> iget_hit dev inum ip s
      | None \<Rightarrow>
          (case ns_enumerate (ins s) evict of
             None \<Rightarrow> panic ''iget out of space''
           | Some victim \<Rightarrow>
               let ns1 = ns_remove (ins s) (i_inum victim);
                   dip = dinodes s inum;
                   ip = \<lparr>i_dev = dev, i_inum = inum, i_ref = 1,
                         i_flags = {I_BUSYR, I_BUSYW}, i_readbusy = 1,
                         i_gen = d_gen dip, i_type = d_type dip, i_major = d_major dip,
                         i_minor = d_minor dip, i_nlink = d_nlink dip, i_size = d_size dip,
                         i_addrs = d_addrs dip\<rparr>
               in case ns_insert ns1 inum ip of
                    None \<Rightarrow>
                      (case ns_lookup ns1 inum of
                         None \<Rightarrow> Inl Blocked
                       | Some ip' \<Rightarrow> iget_hit dev inum ip' (s\<lparr>ins := ns1\<rparr>))
                  | Some ns2 \<Rightarrow>
                      (case iunlock (ip\<lparr>i_flags := i_flags ip \<union> {I_VALID}\<rparr>) of
                         Inl e \<Rightarrow> Inl e
                       | Inr ip' \<Rightarrow> Inr (inum, ns_store inum ip' (s\<lparr>ins := ns2\<rparr>)))))"

text \<open>\<^verbatim>\<open>iput\<close> through a pointer.\<close>

definition iput_p :: "nat \<Rightarrow> kstate \<Rightarrow> fault + kstate" where
  "iput_p p s =
     (case deref p s of
        Inl e \<Rightarrow> Inl e
      | Inr ip \<Rightarrow> (case iput ip s of Inl e \<Rightarrow> Inl e | Inr (ip', s') \<Rightarrow> Inr (ns_store p ip' s')))"

subsection \<open>dirlookup and dirlink\<close>

text \<open>
  \<open>dirlookup dp name s\<close>: \<open>dp\<close> is the pointer to the directory. The result is the
  null pointer (\<open>None\<close>), or the pointer \<^verbatim>\<open>iget\<close> returned together with the byte offset
  that \<^verbatim>\<open>*poff\<close> receives when the caller asks for it.
\<close>

definition dirlookup :: "nat \<Rightarrow> byte list \<Rightarrow> kstate \<Rightarrow> fault + ((nat \<times> nat) option \<times> kstate)" where
  "dirlookup dp name s =
     (case deref dp s of
        Inl e \<Rightarrow> Inl e
      | Inr dpv \<Rightarrow>
          if i_type dpv \<noteq> T_DIR then panic ''dirlookup not DIR''
          else
            (case dirlookup_loop 0 dpv name s of
               Inl e \<Rightarrow> Inl e
             | Inr (res, dpv', s') \<Rightarrow>
                 let s1 = ns_store dp dpv' s' in
                 (case res of
                    None \<Rightarrow> Inr (None, s1)
                  | Some (poff, inum) \<Rightarrow>
                      (case iget (i_dev dpv') inum s1 of
                         Inl e \<Rightarrow> Inl e
                       | Inr (ip, s2) \<Rightarrow> Inr (Some (poff, ip), s2)))))"

text \<open>
  The loop of \<^verbatim>\<open>dirlink\<close> that looks for an empty record; the result is \<open>off\<close> where
  the loop ends.
\<close>

function dirlink_scan :: "nat \<Rightarrow> inode \<Rightarrow> kstate \<Rightarrow> fault + (nat \<times> inode \<times> kstate)" where
  "dirlink_scan off dp s =
     (if off < i_size dp then
        (case readi dp off DESIZE s of
           Inl e \<Rightarrow> Inl e
         | Inr (r, de, dp', s') \<Rightarrow>
             if r \<noteq> int DESIZE then panic ''dirlink read''
             else if de_inum (\<lambda>i. de ! i) 0 = 0 then Inr (off, dp', s')
             else dirlink_scan (off + DESIZE) dp' s')
      else Inr (off, dp, s))"
  by pat_completeness auto
termination
proof (relation "measure (\<lambda>(off, dp, s). i_size dp - off)")
  show "wf (measure (\<lambda>(off, dp, s). i_size dp - off))" by simp
next
  fix off dp s x2 r y de ya dp' s'
  assume a: "off < i_size dp" "readi dp off DESIZE s = Inr x2" "(r, y) = x2" "(de, ya) = y"
    "(dp', s') = ya"
  then have "readi dp off DESIZE s = Inr (r, de, dp', s')" by simp
  from readi_size[OF this] a(1)
  show "((off + DESIZE, dp', s'), off, dp, s) \<in> measure (\<lambda>(off, dp, s). i_size dp - off)"
    by (simp add: DESIZE_def)
qed

definition dirlink :: "nat \<Rightarrow> byte list \<Rightarrow> nat \<Rightarrow> kstate \<Rightarrow> fault + (int \<times> kstate)" where
  "dirlink dp name inum s =
     (case dirlookup dp name s of
        Inl e \<Rightarrow> Inl e
      | Inr (Some (poff, ip), s1) \<Rightarrow>
          (case iput_p ip s1 of Inl e \<Rightarrow> Inl e | Inr s2 \<Rightarrow> Inr (- 1, s2))
      | Inr (None, s1) \<Rightarrow>
          (case deref dp s1 of
             Inl e \<Rightarrow> Inl e
           | Inr dpv \<Rightarrow>
               (case dirlink_scan 0 dpv s1 of
                  Inl e \<Rightarrow> Inl e
                | Inr (off, dpv1, s2) \<Rightarrow>
                    (case writei dpv1 (dirent_bytes inum name) off DESIZE s2 of
                       Inl e \<Rightarrow> Inl e
                     | Inr (r, dpv2, s3) \<Rightarrow>
                         if r \<noteq> int DESIZE then panic ''dirlink''
                         else Inr (0, ns_store dp dpv2 s3)))))"

subsection \<open>ialloc\<close>

text \<open>
  The loop of \<^verbatim>\<open>ialloc\<close> from \<open>inum\<close> on; \<open>ninodes\<close> is the field of the superblock read
  once before the loop. The on-disk type is read through \<open>dinodes\<close>. The result is the
  pointer to the locked inode.
\<close>

function ialloc_loop :: "nat \<Rightarrow> nat \<Rightarrow> nat \<Rightarrow> int \<Rightarrow> kstate \<Rightarrow> fault + (nat \<times> kstate)" where
  "ialloc_loop inum ninodes dev type s =
     (if inum < ninodes then
        (if d_type (dinodes s inum) = 0 then
           (case iget dev inum s of
              Inl e \<Rightarrow> Inl e
            | Inr (p, s1) \<Rightarrow>
                (case deref p s1 of
                   Inl e \<Rightarrow> Inl e
                 | Inr ip0 \<Rightarrow>
                     (case ilock ip0 True of
                        Inl e \<Rightarrow> Inl e
                      | Inr ip \<Rightarrow>
                          if i_type ip = 0 then
                            let ip' = ip\<lparr>i_type := type, i_gen := (i_gen ip + 1) mod 2 ^ 32\<rparr> in
                            if i_nlink ip' \<noteq> 0 \<or> i_size ip' \<noteq> 0 \<or> i_addrs ip' 0 \<noteq> 0
                            then panic ''ialloc not zeroed''
                            else Inr (p, iupdate ip' (ns_store p ip' s1))
                          else
                            (case iunlockput ip s1 of
                               Inl e \<Rightarrow> Inl e
                             | Inr (ip', s2) \<Rightarrow>
                                 ialloc_loop (inum + 1) ninodes dev type (ns_store p ip' s2)))))
         else ialloc_loop (inum + 1) ninodes dev type s)
      else panic ''ialloc: no inodes'')"
  by pat_completeness auto
termination
  by (relation "measure (\<lambda>(inum, ninodes, dev, type, s). ninodes - inum)") auto

definition ialloc :: "nat \<Rightarrow> int \<Rightarrow> kstate \<Rightarrow> fault + (nat \<times> kstate)" where
  "ialloc dev type s = ialloc_loop 1 (sb_ninodes s) dev type s"

declare dirlookup_block.simps [simp del] dirlookup_loop.simps [simp del]
  dirlink_scan.simps [simp del] ialloc_loop.simps [simp del]

subsection \<open>Notions used to state the properties of directories\<close>






subsection \<open>An example directory\<close>






subsection \<open>Notions used to state the properties of ialloc\<close>










section \<open>Properties of directories\<close>

subsection \<open>The first live match\<close>

















subsection \<open>dirlookup\<close>













lemma of_char_diff: "int (of_char a) - int (of_char b) = 0 \<longleftrightarrow> a = b"
  by simp














section \<open>Properties of ialloc\<close>





lemma map_of_ns_update_other: "k \<noteq> p \<Longrightarrow> map_of (ns_update p v ns) k = map_of ns k"
  by (induction ns) (auto split: if_splits)

lemma ns_update_twice: "ns_update p v (ns_update p w ns) = ns_update p v ns"
  by (induction ns) (auto split: if_splits)



















end
